theory Spec2Isabelle
  imports Main "HOL-Library.Word"
begin

section \<open>Configuration (include/config.h) and constants of main.cpp\<close>

type_synonym u8 = "8 word"
type_synonym u32 = "32 word"

text \<open>\<^verbatim>\<open>unsigned long\<close> is 32 bits wide on the ESP8266: every time stamp and every
  difference of time stamps is a \<open>32 word\<close>, so subtraction wraps as in the firmware.\<close>

definition MAX_CLIENTS :: nat where
  "MAX_CLIENTS = 4"

definition BUFFER_SIZE :: nat where
  "BUFFER_SIZE = 256"

definition MODBUS_TIMEOUT_MS :: u32 where
  "MODBUS_TIMEOUT_MS = 2"

definition MAX_FRAME_TIME :: u32 where
  "MAX_FRAME_TIME = 500"

section \<open>Data model\<close>

text \<open>What the firmware observes of a \<^verbatim>\<open>WiFiClient\<close>: the result of its
  \<^verbatim>\<open>operator bool\<close>, of \<^verbatim>\<open>connected()\<close>, the bytes \<^verbatim>\<open>available()\<close> for
  \<^verbatim>\<open>readBytes\<close>, the timeout set by \<^verbatim>\<open>setTimeout\<close> and the remote address.\<close>

record client =
  c_valid :: bool
  c_connected :: bool
  c_rx :: "u8 list"
  c_timeout :: nat
  c_peer :: nat

text \<open>The default-constructed \<^verbatim>\<open>WiFiClient()\<close>.\<close>

definition empty_client :: client where
  "empty_client = \<lparr>c_valid = False, c_connected = False, c_rx = [], c_timeout = 1000, c_peer = 0\<rparr>"

text \<open>The test \<^verbatim>\<open>clients[i] && clients[i].connected()\<close>.\<close>

definition live :: "client \<Rightarrow> bool" where
  "live c = (c_valid c \<and> c_connected c)"

datatype frame_class = RESPONSE | UNSOLICITED

text \<open>One constructor for each group of \<^verbatim>\<open>addToLog\<close> calls of the bridge, with the
  data the lines print (the text itself is left out).\<close>

datatype event =
    EvClientConnected nat
  | EvTcpRequest nat "u8 list" nat
  | EvTransmitted
  | EvWaiting
  | EvClientDisconnected nat
  | EvReceivingByte
  | EvResponseDetected u32
  | EvHeartbeatDetected u32
  | EvTimeout
  | EvHeartbeatFrame u32 "u8 list"
  | EvHeartbeatForwarded nat
  | EvResponseFrame u32 "u8 list" u32
  | EvResponseDispatched nat

text \<open>The globals of main.cpp that the bridge uses, and three output traces: the calls of
  \<^verbatim>\<open>addToLog\<close>, the bytes handed to \<^verbatim>\<open>Serial.write\<close>, and the calls
  \<^verbatim>\<open>clients[i].write(buffer, bufferIndex)\<close> as pairs of slot index and bytes. What the
  socket does with the bytes handed to \<^verbatim>\<open>write\<close>, and the number it returns, belong to the
  network library: the log lines of lines 416-434, which depend on that number, are reduced
  to one entry with the number of connections written to. \<^verbatim>\<open>bufferIndex\<close> is an
  \<^verbatim>\<open>int\<close> that stays between 0 and \<^verbatim>\<open>BUFFER_SIZE\<close>; it is a natural number here.\<close>

record state =
  clients :: "client list"
  buffer :: "u8 list"
  bufferIndex :: nat
  lastByteTime :: u32
  frameInProgress :: bool
  frameStartTime :: u32
  waitingForTcpResponse :: bool
  lastTcpRequestTime :: u32
  messageCounter :: u32
  log_trace :: "event list"
  serial_out :: "u8 list"
  tcp_out :: "(nat \<times> u8 list) list"

definition addToLog :: "event \<Rightarrow> state \<Rightarrow> state" where
  "addToLog e s = s\<lparr>log_trace := log_trace s @ [e]\<rparr>"

text \<open>The arrays \<^verbatim>\<open>clients[MAX_CLIENTS]\<close> and \<^verbatim>\<open>buffer[BUFFER_SIZE]\<close> have fixed sizes.\<close>

definition wf_state :: "state \<Rightarrow> bool" where
  "wf_state s = (length (clients s) = MAX_CLIENTS \<and> length (buffer s) = BUFFER_SIZE)"

definition init_state :: state where
  "init_state = \<lparr>clients = [empty_client, empty_client, empty_client, empty_client],
     buffer = replicate BUFFER_SIZE 0, bufferIndex = 0, lastByteTime = 0,
     frameInProgress = False, frameStartTime = 0, waitingForTcpResponse = False,
     lastTcpRequestTime = 0, messageCounter = 0, log_trace = [], serial_out = [],
     tcp_out = []\<rparr>"

section \<open>handleWiFiClients\<close>

text \<open>Time: \<^verbatim>\<open>millis()\<close> is read at several places of a pass. Each handler takes
  one reading \<open>now\<close> for the pass, and the serial loop takes one reading for each byte.\<close>

text \<open>Lines 262-276: \<open>newClient\<close> is what \<^verbatim>\<open>server.accept()\<close> returned. It goes into the
  first slot that holds no live connection (the \<^verbatim>\<open>for\<close> loop with \<^verbatim>\<open>break\<close>); when every
  slot is live the loop ends without storing it. The \<^verbatim>\<open>stop()\<close> of line 267 closes the
  connection that is overwritten and leaves no trace in the state.\<close>

definition acceptClient :: "client \<Rightarrow> state \<Rightarrow> state" where
  "acceptClient newClient s =
     (if c_valid newClient then
        (case find (\<lambda>i. \<not> live (clients s ! i)) [0..<MAX_CLIENTS] of
           None \<Rightarrow> s
         | Some i \<Rightarrow>
             addToLog (EvClientConnected (c_peer newClient))
               (s\<lparr>clients := (clients s)[i := newClient\<lparr>c_timeout := 10\<rparr>]\<rparr>))
      else s)"

text \<open>Lines 283-310: read at most \<^verbatim>\<open>BUFFER_SIZE\<close> of the available bytes, write them to
  the serial port and set the frame tracking for the response.\<close>

definition forwardRequest :: "u32 \<Rightarrow> state \<Rightarrow> nat \<Rightarrow> state" where
  "forwardRequest now s i =
     (let c = clients s ! i;
          bytesAvailable = length (c_rx c);
          bytesToRead = min bytesAvailable BUFFER_SIZE;
          tcpBuffer = take bytesToRead (c_rx c);
          bytesRead = length tcpBuffer;
          s1 = s\<lparr>clients := (clients s)[i := c\<lparr>c_rx := drop bytesToRead (c_rx c)\<rparr>]\<rparr>
      in if bytesRead > 0 then
           (addToLog EvWaiting
             (addToLog EvTransmitted
               (addToLog (EvTcpRequest (c_peer c) tcpBuffer bytesAvailable) s1
                  \<lparr>serial_out := serial_out s1 @ tcpBuffer\<rparr>)))
             \<lparr>frameInProgress := True, frameStartTime := now, bufferIndex := 0,
              waitingForTcpResponse := True, lastTcpRequestTime := now\<rparr>
         else s1)"

text \<open>Lines 280-317: the body of the second loop for slot \<open>i\<close>.\<close>

definition serviceSlot :: "u32 \<Rightarrow> state \<Rightarrow> nat \<Rightarrow> state" where
  "serviceSlot now s i =
     (let c = clients s ! i in
      if c_valid c \<and> c_connected c then
        (if c_rx c \<noteq> [] then forwardRequest now s i else s)
      else if c_valid c then
        (addToLog (EvClientDisconnected (c_peer c)) s)\<lparr>clients := (clients s)[i := empty_client]\<rparr>
      else s)"

definition handleWiFiClients :: "client \<Rightarrow> u32 \<Rightarrow> state \<Rightarrow> state" where
  "handleWiFiClients newClient now s =
     foldl (serviceSlot now) (acceptClient newClient s) [0..<MAX_CLIENTS]"

section \<open>processRTUResponse\<close>

text \<open>The slots written to by the loops of lines 386-391 and 411-424.\<close>

definition live_slots :: "state \<Rightarrow> nat list" where
  "live_slots s = filter (\<lambda>i. live (clients s ! i)) [0..<MAX_CLIENTS]"

text \<open>Line 374.\<close>

definition isHeartbeat :: "u32 \<Rightarrow> state \<Rightarrow> bool" where
  "isHeartbeat now s = (\<not> waitingForTcpResponse s \<or> now - lastTcpRequestTime s > 5000)"

definition processRTUResponse :: "u32 \<Rightarrow> state \<Rightarrow> state" where
  "processRTUResponse now s =
     (let s1 =
        (if bufferIndex s > 0 then
           (let frame = take (bufferIndex s) (buffer s);
                clientsSent = length (live_slots s);
                writes = map (\<lambda>i. (i, frame)) (live_slots s)
            in if isHeartbeat now s then
                 (let s2 = (addToLog (EvHeartbeatFrame (messageCounter s) frame) s)
                             \<lparr>tcp_out := tcp_out s @ writes\<rparr>
                  in if clientsSent > 0 then addToLog (EvHeartbeatForwarded clientsSent) s2 else s2)
               else
                 (addToLog (EvResponseDispatched clientsSent)
                    ((addToLog (EvResponseFrame (messageCounter s) frame (now - lastTcpRequestTime s)) s)
                       \<lparr>tcp_out := tcp_out s @ writes\<rparr>))
                 \<lparr>waitingForTcpResponse := False\<rparr>)
         else s)
      in s1\<lparr>frameInProgress := False, bufferIndex := 0\<rparr>)"

section \<open>handleModbusRTU\<close>

text \<open>Lines 325-345: one iteration of the \<^verbatim>\<open>while (Serial.available())\<close> loop, for the byte
  \<open>b\<close> read while \<^verbatim>\<open>millis()\<close> returns \<open>t\<close>.\<close>

definition feedByte :: "state \<Rightarrow> u8 \<times> u32 \<Rightarrow> state" where
  "feedByte s bt =
     (let b = fst bt; t = snd bt; s1 = addToLog EvReceivingByte s in
      if bufferIndex s1 < BUFFER_SIZE then
        (let s2 = s1\<lparr>buffer := (buffer s1)[bufferIndex s1 := b],
                     bufferIndex := bufferIndex s1 + 1, lastByteTime := t\<rparr>
         in if \<not> frameInProgress s2 then
              (let s3 = s2\<lparr>frameInProgress := True, frameStartTime := t,
                           messageCounter := messageCounter s2 + 1\<rparr>
               in if waitingForTcpResponse s3 \<and> t - lastTcpRequestTime s3 < 5000
                  then addToLog (EvResponseDetected (messageCounter s3)) s3
                  else addToLog (EvHeartbeatDetected (messageCounter s3)) s3)
            else s2)
      else s1)"

text \<open>The whole loop, over the bytes the UART delivers until \<^verbatim>\<open>Serial.available()\<close>
  returns 0, each with the clock reading at which it is stored.\<close>

definition drainSerial :: "(u8 \<times> u32) list \<Rightarrow> state \<Rightarrow> state" where
  "drainSerial rx s = foldl feedByte s rx"

text \<open>Lines 349-356: the test that a frame is complete.\<close>

definition frameComplete :: "u32 \<Rightarrow> state \<Rightarrow> bool" where
  "frameComplete now s =
     (frameInProgress s \<and> bufferIndex s > 0 \<and>
      (now - lastByteTime s \<ge> MODBUS_TIMEOUT_MS \<or> now - frameStartTime s \<ge> MAX_FRAME_TIME))"

text \<open>Lines 359-366: the timeout of a request that got no byte in reply.\<close>

definition checkTimeout :: "u32 \<Rightarrow> state \<Rightarrow> state" where
  "checkTimeout now s =
     (if waitingForTcpResponse s \<and> frameInProgress s \<and>
         now - frameStartTime s > MAX_FRAME_TIME \<and> bufferIndex s = 0
      then (addToLog EvTimeout s)
             \<lparr>frameInProgress := False, bufferIndex := 0, waitingForTcpResponse := False\<rparr>
      else s)"

definition handleModbusRTU :: "(u8 \<times> u32) list \<Rightarrow> u32 \<Rightarrow> state \<Rightarrow> state" where
  "handleModbusRTU rx now s =
     (let s1 = drainSerial rx s;
          s2 = (if frameComplete now s1 then processRTUResponse now s1 else s1)
      in checkTimeout now s2)"

section \<open>The polling loop\<close>

text \<open>One pass of \<^verbatim>\<open>loop()\<close> while WiFi is up. Its inputs are what the environment
  supplies: what the network did to each slot's connection since the last pass, the result
  of \<^verbatim>\<open>server.accept()\<close>, the clock, and the serial bytes with their arrival times.\<close>

record pass_input =
  p_net :: "nat \<Rightarrow> client \<Rightarrow> client"
  p_accept :: client
  p_now :: u32
  p_serial :: "(u8 \<times> u32) list"

definition net_update :: "(nat \<Rightarrow> client \<Rightarrow> client) \<Rightarrow> client list \<Rightarrow> client list" where
  "net_update f cs = map (\<lambda>i. f i (cs ! i)) [0..<length cs]"

definition loop_pass :: "state \<Rightarrow> pass_input \<Rightarrow> state" where
  "loop_pass s inp =
     handleModbusRTU (p_serial inp) (p_now inp)
       (handleWiFiClients (p_accept inp) (p_now inp)
          (s\<lparr>clients := net_update (p_net inp) (clients s)\<rparr>))"

definition run :: "pass_input list \<Rightarrow> state \<Rightarrow> state" where
  "run inps s = foldl loop_pass s inps"

section \<open>Observations on the traces\<close>

text \<open>The frames the bridge has emitted, with the class it gave each.\<close>

fun frames_of :: "event list \<Rightarrow> (frame_class \<times> u8 list) list" where
  "frames_of [] = []"
| "frames_of (EvHeartbeatFrame n bs # es) = (UNSOLICITED, bs) # frames_of es"
| "frames_of (EvResponseFrame n bs d # es) = (RESPONSE, bs) # frames_of es"
| "frames_of (e # es) = frames_of es"

definition emitted :: "state \<Rightarrow> (frame_class \<times> u8 list) list" where
  "emitted s = frames_of (log_trace s)"

definition timeouts :: "state \<Rightarrow> nat" where
  "timeouts s = length (filter (\<lambda>e. e = EvTimeout) (log_trace s))"

section \<open>Notions used in the statements\<close>

text \<open>The test of lines 280-281: the slot holds a live connection with inbound bytes.\<close>

definition has_request :: "client \<Rightarrow> bool" where
  "has_request c = (live c \<and> c_rx c \<noteq> [])"

text \<open>The bytes of the frame being assembled.\<close>

definition pending :: "state \<Rightarrow> u8 list" where
  "pending s = take (bufferIndex s) (buffer s)"

text \<open>The byte sequences handed to \<^verbatim>\<open>write\<close> on slot \<open>i\<close>, oldest first.\<close>

definition written_to :: "nat \<Rightarrow> state \<Rightarrow> u8 list list" where
  "written_to i s = map snd (filter (\<lambda>w. fst w = i) (tcp_out s))"

text \<open>The bytes that loop sends to the serial port for a slot.\<close>

definition forwarded :: "client \<Rightarrow> u8 list" where
  "forwarded c = (if live c \<and> c_rx c \<noteq> [] then take BUFFER_SIZE (c_rx c) else [])"

text \<open>What one pass of the second loop of \<^verbatim>\<open>handleWiFiClients\<close> leaves in a slot: a
  request is read off up to \<^verbatim>\<open>BUFFER_SIZE\<close> bytes, a dead connection is replaced by the
  empty client.\<close>

definition serviced :: "client \<Rightarrow> client" where
  "serviced c =
     (if live c then (if c_rx c \<noteq> [] then c\<lparr>c_rx := drop BUFFER_SIZE (c_rx c)\<rparr> else c)
      else if c_valid c then empty_client else c)"

text \<open>The frame tracking that lines 303-308 set.\<close>

definition armed_at :: "u32 \<Rightarrow> state \<Rightarrow> bool" where
  "armed_at now s = (waitingForTcpResponse s \<and> lastTcpRequestTime s = now \<and>
     frameInProgress s \<and> frameStartTime s = now \<and> bufferIndex s = 0)"

text \<open>The assembler and tracker variables, the buffer and the serial output.\<close>

definition core :: "state \<Rightarrow> nat \<times> u32 \<times> bool \<times> u32 \<times> bool \<times> u32 \<times> u32 \<times> u8 list \<times> u8 list" where
  "core s = (bufferIndex s, lastByteTime s, frameInProgress s, frameStartTime s,
     waitingForTcpResponse s, lastTcpRequestTime s, messageCounter s, buffer s, serial_out s)"

text \<open>A run of passes in which no serial byte arrives and no connection, old or new, has
  inbound bytes when the bridge looks at it.\<close>

fun quiet_run :: "pass_input list \<Rightarrow> state \<Rightarrow> bool" where
  "quiet_run [] s = True"
| "quiet_run (inp # inps) s =
     (p_serial inp = [] \<and> \<not> has_request (p_accept inp) \<and>
      list_all (\<lambda>c. \<not> has_request c) (net_update (p_net inp) (clients s)) \<and>
      quiet_run inps (loop_pass s inp))"

section \<open>Example states and inputs\<close>

text \<open>A connected peer with the given inbound bytes.\<close>

definition peer :: "nat \<Rightarrow> u8 list \<Rightarrow> client" where
  "peer n bs = \<lparr>c_valid = True, c_connected = True, c_rx = bs, c_timeout = 1000, c_peer = n\<rparr>"

text \<open>A request is pending since time 0 and one serial byte is buffered.\<close>

definition late_state :: state where
  "late_state = init_state\<lparr>buffer := 1 # replicate 255 0, bufferIndex := 1,
     frameInProgress := True, waitingForTcpResponse := True, lastTcpRequestTime := 0\<rparr>"


text \<open>The request frame of the spec's scenario, one byte per millisecond from time 100.\<close>

definition scenario_bytes :: "(u8 \<times> u32) list" where
  "scenario_bytes = [(0x01, 100), (0x04, 101), (0x00, 102), (0x00, 103), (0x00, 104),
     (0x01, 105), (0x31, 106), (0xCA, 107)]"

text \<open>A pass at time \<open>t\<close> in which nothing arrives.\<close>

definition idle_pass :: "u32 \<Rightarrow> pass_input" where
  "idle_pass t = \<lparr>p_net = (\<lambda>i c. c), p_accept = empty_client, p_now = t, p_serial = []\<rparr>"

text \<open>A frame in progress whose buffer is full; the last byte came at time 5.\<close>

definition full_buffer_state :: state where
  "full_buffer_state = init_state\<lparr>bufferIndex := 256, lastByteTime := 5,
     frameInProgress := True, frameStartTime := 1\<rparr>"

text \<open>Slot 0 holds a connection with an 8-byte request.\<close>

definition request_state :: state where
  "request_state = init_state\<lparr>clients :=
     [peer 1 [0x01, 0x04, 0x00, 0x00, 0x00, 0x01, 0x31, 0xCA], empty_client, empty_client,
      empty_client]\<rparr>"

text \<open>The state after that request was forwarded at time 0.\<close>

definition armed_state :: state where
  "armed_state = handleWiFiClients empty_client 0 request_state"

text \<open>Four connections registered one after the other.\<close>

definition full_registry :: state where
  "full_registry =
     acceptClient (peer 4 []) (acceptClient (peer 3 []) (acceptClient (peer 2 [])
       (acceptClient (peer 1 []) init_state)))"

text \<open>Slot 0 holds a connection with 257 inbound bytes.\<close>

definition oversize_state :: state where
  "oversize_state = init_state\<lparr>clients :=
     [peer 7 (replicate 257 0x11), empty_client, empty_client, empty_client]\<rparr>"

text \<open>One serial byte is buffered when a request arrives on slot 0.\<close>

definition interrupted_state :: state where
  "interrupted_state = late_state\<lparr>clients :=
     [peer 1 [0x01, 0x04], empty_client, empty_client, empty_client]\<rparr>"

text \<open>A pending request, one buffered byte, and slots holding a live connection, a
  connection whose peer has closed, no connection, and a live connection.\<close>

definition broadcast_state :: state where
  "broadcast_state = late_state\<lparr>clients :=
     [peer 7 [], (peer 8 [])\<lparr>c_connected := False\<rparr>, empty_client, peer 9 []]\<rparr>"


section \<open>Traces and fields\<close>

lemma frames_of_append: "frames_of (xs @ ys) = frames_of xs @ frames_of ys"
  by (induction xs rule: frames_of.induct) simp_all

lemma emitted_addToLog [simp]:
  "emitted (addToLog e s) = emitted s @ frames_of [e]"
  by (simp add: emitted_def addToLog_def frames_of_append)

lemma timeouts_addToLog [simp]:
  "timeouts (addToLog e s) = timeouts s + (if e = EvTimeout then 1 else 0)"
  by (simp add: timeouts_def addToLog_def)

lemma emitted_upd [simp]:
  "emitted (s\<lparr>clients := cs\<rparr>) = emitted s"
  "emitted (s\<lparr>buffer := bf\<rparr>) = emitted s"
  "emitted (s\<lparr>bufferIndex := n\<rparr>) = emitted s"
  "emitted (s\<lparr>lastByteTime := t\<rparr>) = emitted s"
  "emitted (s\<lparr>frameInProgress := b\<rparr>) = emitted s"
  "emitted (s\<lparr>frameStartTime := t\<rparr>) = emitted s"
  "emitted (s\<lparr>waitingForTcpResponse := b\<rparr>) = emitted s"
  "emitted (s\<lparr>lastTcpRequestTime := t\<rparr>) = emitted s"
  "emitted (s\<lparr>messageCounter := m\<rparr>) = emitted s"
  "emitted (s\<lparr>serial_out := so\<rparr>) = emitted s"
  "emitted (s\<lparr>tcp_out := tco\<rparr>) = emitted s"
  by (simp_all add: emitted_def)

lemma timeouts_upd [simp]:
  "timeouts (s\<lparr>clients := cs\<rparr>) = timeouts s"
  "timeouts (s\<lparr>buffer := bf\<rparr>) = timeouts s"
  "timeouts (s\<lparr>bufferIndex := n\<rparr>) = timeouts s"
  "timeouts (s\<lparr>lastByteTime := t\<rparr>) = timeouts s"
  "timeouts (s\<lparr>frameInProgress := b\<rparr>) = timeouts s"
  "timeouts (s\<lparr>frameStartTime := t\<rparr>) = timeouts s"
  "timeouts (s\<lparr>waitingForTcpResponse := b\<rparr>) = timeouts s"
  "timeouts (s\<lparr>lastTcpRequestTime := t\<rparr>) = timeouts s"
  "timeouts (s\<lparr>messageCounter := m\<rparr>) = timeouts s"
  "timeouts (s\<lparr>serial_out := so\<rparr>) = timeouts s"
  "timeouts (s\<lparr>tcp_out := tco\<rparr>) = timeouts s"
  by (simp_all add: timeouts_def)

lemma addToLog_fields [simp]:
  "clients (addToLog e s) = clients s"
  "buffer (addToLog e s) = buffer s"
  "bufferIndex (addToLog e s) = bufferIndex s"
  "lastByteTime (addToLog e s) = lastByteTime s"
  "frameInProgress (addToLog e s) = frameInProgress s"
  "frameStartTime (addToLog e s) = frameStartTime s"
  "waitingForTcpResponse (addToLog e s) = waitingForTcpResponse s"
  "lastTcpRequestTime (addToLog e s) = lastTcpRequestTime s"
  "messageCounter (addToLog e s) = messageCounter s"
  "serial_out (addToLog e s) = serial_out s"
  "tcp_out (addToLog e s) = tcp_out s"
  "log_trace (addToLog e s) = log_trace s @ [e]"
  by (simp_all add: addToLog_def)

lemma emitted_init_state [simp]: "emitted init_state = []"
  by (simp add: emitted_def init_state_def)

lemma wf_init_state: "wf_state init_state"
  by (simp add: wf_state_def init_state_def MAX_CLIENTS_def)

lemma slots_upt: "[0..<MAX_CLIENTS] = [0, 1, 2, 3]"
  by (simp add: MAX_CLIENTS_def upt_rec)

section \<open>Facts about handleWiFiClients\<close>

lemma forwardRequest_traces [simp]:
  "emitted (forwardRequest now s i) = emitted s"
  "timeouts (forwardRequest now s i) = timeouts s"
  "tcp_out (forwardRequest now s i) = tcp_out s"
  "buffer (forwardRequest now s i) = buffer s"
  "length (clients (forwardRequest now s i)) = length (clients s)"
  by (simp_all add: forwardRequest_def Let_def)

lemma serviceSlot_traces [simp]:
  "emitted (serviceSlot now s i) = emitted s"
  "timeouts (serviceSlot now s i) = timeouts s"
  "tcp_out (serviceSlot now s i) = tcp_out s"
  "buffer (serviceSlot now s i) = buffer s"
  "length (clients (serviceSlot now s i)) = length (clients s)"
  by (simp_all add: serviceSlot_def Let_def)

lemma serviceSlot_bufferIndex_le:
  "bufferIndex (serviceSlot now s i) \<le> bufferIndex s"
  by (simp add: serviceSlot_def forwardRequest_def Let_def)

lemma serviceSlot_other:
  "j \<noteq> i \<Longrightarrow> clients (serviceSlot now s i) ! j = clients s ! j"
  by (simp add: serviceSlot_def forwardRequest_def Let_def)

lemma fold_service_traces [simp]:
  "emitted (foldl (serviceSlot now) s is) = emitted s"
  "timeouts (foldl (serviceSlot now) s is) = timeouts s"
  "tcp_out (foldl (serviceSlot now) s is) = tcp_out s"
  "buffer (foldl (serviceSlot now) s is) = buffer s"
  "length (clients (foldl (serviceSlot now) s is)) = length (clients s)"
  by (induction "is" arbitrary: s; simp)+

lemma fold_service_bufferIndex_le:
  "bufferIndex (foldl (serviceSlot now) s is) \<le> bufferIndex s"
proof (induction "is" arbitrary: s)
  case Nil
  then show ?case by simp
next
  case (Cons i "is")
  have "bufferIndex (foldl (serviceSlot now) (serviceSlot now s i) is) \<le> bufferIndex (serviceSlot now s i)"
    by (rule Cons.IH)
  also have "\<dots> \<le> bufferIndex s" by (rule serviceSlot_bufferIndex_le)
  finally show ?case by simp
qed

lemma fold_service_other:
  "j \<notin> set is \<Longrightarrow> clients (foldl (serviceSlot now) s is) ! j = clients s ! j"
  by (induction "is" arbitrary: s) (auto simp: serviceSlot_other)

lemma acceptClient_traces [simp]:
  "emitted (acceptClient nc s) = emitted s"
  "timeouts (acceptClient nc s) = timeouts s"
  "tcp_out (acceptClient nc s) = tcp_out s"
  "serial_out (acceptClient nc s) = serial_out s"
  "buffer (acceptClient nc s) = buffer s"
  "bufferIndex (acceptClient nc s) = bufferIndex s"
  "lastByteTime (acceptClient nc s) = lastByteTime s"
  "frameInProgress (acceptClient nc s) = frameInProgress s"
  "frameStartTime (acceptClient nc s) = frameStartTime s"
  "waitingForTcpResponse (acceptClient nc s) = waitingForTcpResponse s"
  "lastTcpRequestTime (acceptClient nc s) = lastTcpRequestTime s"
  "length (clients (acceptClient nc s)) = length (clients s)"
  by (simp_all add: acceptClient_def split: option.splits)

lemma handleWiFiClients_traces [simp]:
  "emitted (handleWiFiClients nc now s) = emitted s"
  "timeouts (handleWiFiClients nc now s) = timeouts s"
  "tcp_out (handleWiFiClients nc now s) = tcp_out s"
  "buffer (handleWiFiClients nc now s) = buffer s"
  "length (clients (handleWiFiClients nc now s)) = length (clients s)"
  by (simp_all add: handleWiFiClients_def)

lemma handleWiFiClients_bufferIndex_le:
  "bufferIndex (handleWiFiClients nc now s) \<le> bufferIndex s"
  using fold_service_bufferIndex_le [of now "acceptClient nc s"]
  by (simp add: handleWiFiClients_def)

lemma serviceSlot_slot:
  "i < length (clients s) \<Longrightarrow> clients (serviceSlot now s i) ! i = serviced (clients s ! i)"
  by (simp add: serviceSlot_def forwardRequest_def Let_def serviced_def live_def min_def
      BUFFER_SIZE_def)

lemma serviceSlot_serial:
  "serial_out (serviceSlot now s i) = serial_out s @ forwarded (clients s ! i)"
  by (simp add: serviceSlot_def forwardRequest_def Let_def forwarded_def live_def min_def
      BUFFER_SIZE_def)

lemma serviceSlot_armed_at:
  "armed_at now s \<or> has_request (clients s ! i) \<Longrightarrow> armed_at now (serviceSlot now s i)"
  by (auto simp: armed_at_def serviceSlot_def forwardRequest_def Let_def has_request_def live_def
      BUFFER_SIZE_def)

lemma fold_service_armed_at:
  "armed_at now s \<or> (\<exists>i \<in> set is. has_request (clients s ! i)) \<Longrightarrow> distinct is \<Longrightarrow>
   armed_at now (foldl (serviceSlot now) s is)"
proof (induction "is" arbitrary: s)
  case Nil
  then show ?case by simp
next
  case (Cons i "is")
  have "armed_at now (serviceSlot now s i) \<or>
      (\<exists>j \<in> set is. has_request (clients (serviceSlot now s i) ! j))"
  proof (cases "armed_at now s \<or> has_request (clients s ! i)")
    case True
    then show ?thesis by (simp add: serviceSlot_armed_at)
  next
    case False
    with Cons.prems(1) obtain j where j: "j \<in> set is" "has_request (clients s ! j)"
      by auto
    with Cons.prems(2) have "j \<noteq> i" by auto
    then have "clients (serviceSlot now s i) ! j = clients s ! j"
      by (rule serviceSlot_other)
    with j(2) have "has_request (clients (serviceSlot now s i) ! j)" by simp
    with j(1) show ?thesis by blast
  qed
  then have "armed_at now (foldl (serviceSlot now) (serviceSlot now s i) is)"
    using Cons.prems(2) by (intro Cons.IH) simp_all
  then show ?case by simp
qed

lemma fold_service_serial:
  "distinct is \<Longrightarrow>
   serial_out (foldl (serviceSlot now) s is) =
     serial_out s @ concat (map (\<lambda>i. forwarded (clients s ! i)) is)"
proof (induction "is" arbitrary: s)
  case Nil
  then show ?case by simp
next
  case (Cons i "is")
  have eq: "forwarded (clients (serviceSlot now s i) ! j) = forwarded (clients s ! j)"
    if "j \<in> set is" for j
  proof -
    from that Cons.prems have "j \<noteq> i" by auto
    then show ?thesis by (simp add: serviceSlot_other)
  qed
  have meq: "map (\<lambda>j. forwarded (clients (serviceSlot now s i) ! j)) is =
      map (\<lambda>j. forwarded (clients s ! j)) is"
    by (rule map_cong [OF refl]) (rule eq)
  have "serial_out (foldl (serviceSlot now) (serviceSlot now s i) is) =
      serial_out (serviceSlot now s i) @
        concat (map (\<lambda>j. forwarded (clients (serviceSlot now s i) ! j)) is)"
    using Cons.prems by (intro Cons.IH) simp
  also have "\<dots> = serial_out (serviceSlot now s i) @
        concat (map (\<lambda>j. forwarded (clients s ! j)) is)"
    by (simp only: meq)
  finally show ?case by (simp add: serviceSlot_serial)
qed

lemma fold_service_slot:
  assumes "i < n" "i < length (clients s)"
  shows "clients (foldl (serviceSlot now) s [0..<n]) ! i = serviced (clients s ! i)"
proof -
  let ?u = "foldl (serviceSlot now) s [0..<i]"
  have split: "[0..<n] = [0..<i] @ i # [Suc i..<n]"
  proof -
    have "[0..<i + (n - i)] = [0..<i] @ [i..<i + (n - i)]"
      by (rule upt_add_eq_append) simp
    then show ?thesis
      using assms(1) by (simp add: upt_conv_Cons)
  qed
  have u: "clients ?u ! i = clients s ! i"
    by (rule fold_service_other) simp
  have "clients (foldl (serviceSlot now) s [0..<n]) ! i =
      clients (foldl (serviceSlot now) (serviceSlot now ?u i) [Suc i..<n]) ! i"
    by (simp add: split)
  also have "\<dots> = clients (serviceSlot now ?u i) ! i"
    by (rule fold_service_other) simp
  also have "\<dots> = serviced (clients ?u ! i)"
    using assms(2) by (intro serviceSlot_slot) simp
  finally show ?thesis by (simp add: u)
qed

lemma acceptClient_live_slot:
  assumes "live (clients s ! i)"
  shows "clients (acceptClient nc s) ! i = clients s ! i"
proof (cases "find (\<lambda>i. \<not> live (clients s ! i)) [0..<MAX_CLIENTS]")
  case None
  then show ?thesis by (simp add: acceptClient_def)
next
  case (Some j)
  then have "\<not> live (clients s ! j)" by (auto simp: find_Some_iff)
  with assms have "j \<noteq> i" by auto
  with Some show ?thesis by (simp add: acceptClient_def)
qed

lemma acceptClient_slot:
  assumes "i < length (clients s)"
  shows "clients (acceptClient nc s) ! i = clients s ! i \<or>
    (c_valid nc \<and> clients (acceptClient nc s) ! i = nc\<lparr>c_timeout := 10\<rparr>)"
proof (cases "find (\<lambda>i. \<not> live (clients s ! i)) [0..<MAX_CLIENTS]")
  case None
  then show ?thesis by (simp add: acceptClient_def)
next
  case (Some j)
  show ?thesis
  proof (cases "j = i")
    case True
    with Some assms show ?thesis by (simp add: acceptClient_def)
  next
    case False
    with Some show ?thesis by (simp add: acceptClient_def)
  qed
qed

lemma handleWiFiClients_serial:
  assumes "length (clients s) = MAX_CLIENTS"
  shows "serial_out (handleWiFiClients nc now s) =
    serial_out s @ concat (map forwarded (clients (acceptClient nc s)))"
proof -
  let ?s0 = "acceptClient nc s"
  have "map (\<lambda>i. forwarded (clients ?s0 ! i)) [0..<MAX_CLIENTS] =
      map forwarded (map (\<lambda>i. clients ?s0 ! i) [0..<length (clients ?s0)])"
    using assms by simp
  also have "\<dots> = map forwarded (clients ?s0)"
    by (simp only: map_nth)
  finally show ?thesis
    by (simp add: handleWiFiClients_def fold_service_serial)
qed

lemma handleWiFiClients_slot:
  assumes "length (clients s) = MAX_CLIENTS" "i < MAX_CLIENTS"
  shows "clients (handleWiFiClients nc now s) ! i = serviced (clients (acceptClient nc s) ! i)"
  using assms by (simp add: handleWiFiClients_def fold_service_slot)

lemma handleWiFiClients_armed_at:
  assumes "i < MAX_CLIENTS" "has_request (clients (acceptClient nc s) ! i)"
  shows "armed_at now (handleWiFiClients nc now s)"
  unfolding handleWiFiClients_def
  using assms by (intro fold_service_armed_at) auto

lemma serviced_not_live:
  "\<not> live c \<Longrightarrow> \<not> c_valid (serviced c)"
  by (simp add: serviced_def empty_client_def)

lemma serviced_valid:
  "c_valid (serviced c) \<Longrightarrow> c_valid c \<and> c_peer (serviced c) = c_peer c"
  by (auto simp: serviced_def empty_client_def split: if_splits)

section \<open>Facts about the serial loop\<close>

lemma drainSerial_Nil [simp]: "drainSerial [] s = s"
  by (simp add: drainSerial_def)

lemma drainSerial_Cons [simp]: "drainSerial (bt # rx) s = drainSerial rx (feedByte s bt)"
  by (simp add: drainSerial_def)

lemma feedByte_traces [simp]:
  "emitted (feedByte s bt) = emitted s"
  "timeouts (feedByte s bt) = timeouts s"
  "tcp_out (feedByte s bt) = tcp_out s"
  "serial_out (feedByte s bt) = serial_out s"
  "clients (feedByte s bt) = clients s"
  "length (buffer (feedByte s bt)) = length (buffer s)"
  "waitingForTcpResponse (feedByte s bt) = waitingForTcpResponse s"
  "lastTcpRequestTime (feedByte s bt) = lastTcpRequestTime s"
  by (simp_all add: feedByte_def Let_def)

lemma drainSerial_traces [simp]:
  "emitted (drainSerial rx s) = emitted s"
  "timeouts (drainSerial rx s) = timeouts s"
  "tcp_out (drainSerial rx s) = tcp_out s"
  "serial_out (drainSerial rx s) = serial_out s"
  "clients (drainSerial rx s) = clients s"
  "length (buffer (drainSerial rx s)) = length (buffer s)"
  "waitingForTcpResponse (drainSerial rx s) = waitingForTcpResponse s"
  "lastTcpRequestTime (drainSerial rx s) = lastTcpRequestTime s"
  by (induction rx arbitrary: s; simp)+

lemma feedByte_bufferIndex_le:
  "bufferIndex s \<le> BUFFER_SIZE \<Longrightarrow> bufferIndex (feedByte s bt) \<le> BUFFER_SIZE"
  by (simp add: feedByte_def Let_def)

lemma drainSerial_bufferIndex_le:
  "bufferIndex s \<le> BUFFER_SIZE \<Longrightarrow> bufferIndex (drainSerial rx s) \<le> BUFFER_SIZE"
  by (induction rx arbitrary: s) (simp_all add: feedByte_bufferIndex_le)

lemma feedByte_full:
  "bufferIndex s \<ge> BUFFER_SIZE \<Longrightarrow> feedByte s bt = addToLog EvReceivingByte s"
  by (simp add: feedByte_def Let_def)

lemma drainSerial_full:
  "bufferIndex s \<ge> BUFFER_SIZE \<Longrightarrow>
   drainSerial rx s = s\<lparr>log_trace := log_trace s @ replicate (length rx) EvReceivingByte\<rparr>"
proof (induction rx arbitrary: s)
  case Nil
  then show ?case by simp
next
  case (Cons bt rx)
  have "drainSerial (bt # rx) s = drainSerial rx (addToLog EvReceivingByte s)"
    using Cons.prems by (simp add: feedByte_full)
  also have "\<dots> = (addToLog EvReceivingByte s)
      \<lparr>log_trace := log_trace (addToLog EvReceivingByte s) @ replicate (length rx) EvReceivingByte\<rparr>"
    using Cons.prems by (intro Cons.IH) simp
  finally show ?case
    by (simp add: addToLog_def replicate_app_Cons_same)
qed

lemma take_take_append: "take n (take n xs @ ys) = take n (xs @ ys)"
  by (induction xs arbitrary: n) (auto simp: take_Cons split: nat.splits)

lemma pending_feedByte:
  assumes "length (buffer s) = BUFFER_SIZE" "bufferIndex s \<le> BUFFER_SIZE"
  shows "pending (feedByte s bt) = take BUFFER_SIZE (pending s @ [fst bt])"
proof (cases "bufferIndex s < BUFFER_SIZE")
  case True
  then have "take (Suc (bufferIndex s)) ((buffer s)[bufferIndex s := fst bt]) =
      take (bufferIndex s) (buffer s) @ [fst bt]"
    using assms by (simp add: take_Suc_conv_app_nth)
  then show ?thesis
    using True assms by (simp add: pending_def feedByte_def Let_def)
next
  case False
  then show ?thesis
    using assms by (simp add: pending_def feedByte_full)
qed

lemma pending_drainSerial:
  assumes "length (buffer s) = BUFFER_SIZE" "bufferIndex s \<le> BUFFER_SIZE"
  shows "pending (drainSerial rx s) = take BUFFER_SIZE (pending s @ map fst rx)"
  using assms
proof (induction rx arbitrary: s)
  case Nil
  then show ?case by (simp add: pending_def)
next
  case (Cons bt rx)
  have "pending (drainSerial (bt # rx) s) =
      take BUFFER_SIZE (pending (feedByte s bt) @ map fst rx)"
    using Cons.prems by (simp add: Cons.IH feedByte_bufferIndex_le)
  also have "\<dots> = take BUFFER_SIZE (take BUFFER_SIZE (pending s @ [fst bt]) @ map fst rx)"
    using Cons.prems by (simp add: pending_feedByte)
  also have "\<dots> = take BUFFER_SIZE (pending s @ fst bt # map fst rx)"
    unfolding take_take_append by simp
  finally show ?case by simp
qed

section \<open>Facts about processRTUResponse and handleModbusRTU\<close>

lemma processRTUResponse_fields [simp]:
  "\<not> frameInProgress (processRTUResponse now s)"
  "bufferIndex (processRTUResponse now s) = 0"
  "clients (processRTUResponse now s) = clients s"
  "buffer (processRTUResponse now s) = buffer s"
  "serial_out (processRTUResponse now s) = serial_out s"
  "timeouts (processRTUResponse now s) = timeouts s"
  by (simp_all add: processRTUResponse_def Let_def)

lemma processRTUResponse_emitted:
  "emitted (processRTUResponse now s) = emitted s @
     (if bufferIndex s > 0
      then [(if isHeartbeat now s then UNSOLICITED else RESPONSE, take (bufferIndex s) (buffer s))]
      else [])"
  by (simp add: processRTUResponse_def Let_def)

lemma processRTUResponse_tcp_out:
  "tcp_out (processRTUResponse now s) = tcp_out s @
     (if bufferIndex s > 0
      then map (\<lambda>i. (i, take (bufferIndex s) (buffer s))) (live_slots s) else [])"
  by (simp add: processRTUResponse_def Let_def)


lemma processRTUResponse_unsolicited:
  assumes "bufferIndex s > 0" "\<not> waitingForTcpResponse s \<or> now - lastTcpRequestTime s > 5000"
  shows "emitted (processRTUResponse now s) = emitted s @ [(UNSOLICITED, take (bufferIndex s) (buffer s))]"
    and "waitingForTcpResponse (processRTUResponse now s) = waitingForTcpResponse s"
  using assms
  by (auto simp add: processRTUResponse_def isHeartbeat_def Let_def emitted_def addToLog_def
      frames_of_append)

lemma filter_eq_upt:
  "filter (\<lambda>j. P j \<and> j = i) [0..<n] = (if i < n \<and> P i then [i] else [])"
  by (induction n) (auto simp: less_Suc_eq)

lemma written_to_upd [simp]:
  "written_to i (s\<lparr>frameInProgress := b\<rparr>) = written_to i s"
  "written_to i (s\<lparr>bufferIndex := n\<rparr>) = written_to i s"
  "written_to i (s\<lparr>waitingForTcpResponse := b\<rparr>) = written_to i s"
  "written_to i (addToLog e s) = written_to i s"
  by (simp_all add: written_to_def)

lemma writes_to_slot:
  "map snd (filter (\<lambda>w. fst w = i) (map (\<lambda>j. (j, frame)) (live_slots s))) =
     (if i < MAX_CLIENTS \<and> live (clients s ! i) then [frame] else [])"
  by (simp add: live_slots_def filter_map comp_def filter_eq_upt)

lemma processRTUResponse_written_to:
  "bufferIndex s > 0 \<Longrightarrow>
   written_to i (processRTUResponse now s) = written_to i s @
     (if i < MAX_CLIENTS \<and> live (clients s ! i) then [take (bufferIndex s) (buffer s)] else [])"
  by (simp add: written_to_def processRTUResponse_tcp_out writes_to_slot)

lemma checkTimeout_fields [simp]:
  "emitted (checkTimeout now s) = emitted s"
  "clients (checkTimeout now s) = clients s"
  "buffer (checkTimeout now s) = buffer s"
  "serial_out (checkTimeout now s) = serial_out s"
  "tcp_out (checkTimeout now s) = tcp_out s"
  by (simp_all add: checkTimeout_def)

lemma checkTimeout_bufferIndex [simp]:
  "bufferIndex (checkTimeout now s) = bufferIndex s"
  by (simp add: checkTimeout_def)

lemma checkTimeout_idle:
  "\<not> frameInProgress s \<Longrightarrow> checkTimeout now s = s"
  by (simp add: checkTimeout_def)

lemma handleModbusRTU_emitted:
  "emitted (handleModbusRTU rx now s) = emitted s @
     (if frameComplete now (drainSerial rx s)
      then [(if isHeartbeat now (drainSerial rx s) then UNSOLICITED else RESPONSE,
             take (bufferIndex (drainSerial rx s)) (buffer (drainSerial rx s)))]
      else [])"
  by (simp add: handleModbusRTU_def Let_def processRTUResponse_emitted frameComplete_def)

lemma handleModbusRTU_reset:
  "frameComplete now (drainSerial rx s) \<Longrightarrow>
   \<not> frameInProgress (handleModbusRTU rx now s) \<and> bufferIndex (handleModbusRTU rx now s) = 0"
  by (simp add: handleModbusRTU_def Let_def checkTimeout_idle)

lemma handleModbusRTU_bufferIndex_le:
  "bufferIndex s \<le> BUFFER_SIZE \<Longrightarrow> bufferIndex (handleModbusRTU rx now s) \<le> BUFFER_SIZE"
  by (simp add: handleModbusRTU_def Let_def drainSerial_bufferIndex_le)

lemma handleModbusRTU_lengths [simp]:
  "length (buffer (handleModbusRTU rx now s)) = length (buffer s)"
  "clients (handleModbusRTU rx now s) = clients s"
  by (simp_all add: handleModbusRTU_def Let_def)

section \<open>Facts about the polling loop\<close>

lemma run_Nil [simp]: "run [] s = s"
  by (simp add: run_def)

lemma run_Cons [simp]: "run (inp # inps) s = run inps (loop_pass s inp)"
  by (simp add: run_def)

lemma length_net_update [simp]: "length (net_update f cs) = length cs"
  by (simp add: net_update_def)

lemma loop_pass_wf: "wf_state s \<Longrightarrow> wf_state (loop_pass s inp)"
  by (simp add: wf_state_def loop_pass_def)

lemma loop_pass_bufferIndex_le:
  assumes "bufferIndex s \<le> BUFFER_SIZE"
  shows "bufferIndex (loop_pass s inp) \<le> BUFFER_SIZE"
proof -
  let ?u = "handleWiFiClients (p_accept inp) (p_now inp)
      (s\<lparr>clients := net_update (p_net inp) (clients s)\<rparr>)"
  have "bufferIndex ?u \<le> bufferIndex (s\<lparr>clients := net_update (p_net inp) (clients s)\<rparr>)"
    by (rule handleWiFiClients_bufferIndex_le)
  with assms have "bufferIndex ?u \<le> BUFFER_SIZE" by simp
  then show ?thesis
    unfolding loop_pass_def by (rule handleModbusRTU_bufferIndex_le)
qed

lemma run_bufferIndex_le:
  "bufferIndex s \<le> BUFFER_SIZE \<Longrightarrow> bufferIndex (run inps s) \<le> BUFFER_SIZE"
  by (induction inps arbitrary: s) (simp_all add: loop_pass_bufferIndex_le)

lemma run_wf: "wf_state s \<Longrightarrow> wf_state (run inps s)"
  by (induction inps arbitrary: s) (simp_all add: loop_pass_wf)

lemma loop_pass_silent:
  assumes "bufferIndex s = 0" "p_serial inp = []"
  shows "bufferIndex (loop_pass s inp) = 0 \<and> emitted (loop_pass s inp) = emitted s"
proof -
  let ?u = "handleWiFiClients (p_accept inp) (p_now inp)
      (s\<lparr>clients := net_update (p_net inp) (clients s)\<rparr>)"
  have "bufferIndex ?u \<le> bufferIndex (s\<lparr>clients := net_update (p_net inp) (clients s)\<rparr>)"
    by (rule handleWiFiClients_bufferIndex_le)
  with assms have u: "bufferIndex ?u = 0" by simp
  then have "\<not> frameComplete (p_now inp) ?u" by (simp add: frameComplete_def)
  with u assms show ?thesis
    by (simp add: loop_pass_def handleModbusRTU_def)
qed

lemma run_silent:
  "bufferIndex s = 0 \<Longrightarrow> \<forall>inp \<in> set inps. p_serial inp = [] \<Longrightarrow>
   emitted (run inps s) = emitted s"
  by (induction inps arbitrary: s) (simp_all add: loop_pass_silent)

subsection \<open>Passes in which nothing arrives\<close>

lemma serviceSlot_quiet:
  assumes "list_all (\<lambda>c. \<not> has_request c) (clients s)" "i < length (clients s)"
  shows "core (serviceSlot now s i) = core s"
    and "list_all (\<lambda>c. \<not> has_request c) (clients (serviceSlot now s i))"
proof -
  have c: "\<not> has_request (clients s ! i)"
    using assms by (simp add: list_all_length)
  then show "core (serviceSlot now s i) = core s"
    by (auto simp: serviceSlot_def Let_def core_def has_request_def live_def)
  have "\<not> has_request empty_client"
    by (simp add: has_request_def empty_client_def)
  then have "list_all (\<lambda>c. \<not> has_request c) ((clients s)[i := empty_client])"
    using assms(1) by (auto simp: list_all_iff dest!: set_update_subset_insert [THEN subsetD])
  with c assms(1) show "list_all (\<lambda>c. \<not> has_request c) (clients (serviceSlot now s i))"
    by (auto simp: serviceSlot_def Let_def has_request_def live_def)
qed

lemma fold_service_quiet:
  assumes "list_all (\<lambda>c. \<not> has_request c) (clients s)" "\<forall>i \<in> set is. i < length (clients s)"
  shows "core (foldl (serviceSlot now) s is) = core s"
  using assms
proof (induction "is" arbitrary: s)
  case Nil
  then show ?case by simp
next
  case (Cons i "is")
  have "core (foldl (serviceSlot now) (serviceSlot now s i) is) = core (serviceSlot now s i)"
    using Cons.prems by (intro Cons.IH) (simp_all add: serviceSlot_quiet)
  then show ?case
    using Cons.prems by (simp add: serviceSlot_quiet)
qed

lemma acceptClient_quiet:
  assumes "list_all (\<lambda>c. \<not> has_request c) (clients s)" "\<not> has_request nc"
  shows "list_all (\<lambda>c. \<not> has_request c) (clients (acceptClient nc s))"
proof -
  have "\<not> has_request (nc\<lparr>c_timeout := 10\<rparr>)"
    using assms(2) by (simp add: has_request_def live_def)
  then have "list_all (\<lambda>c. \<not> has_request c) ((clients s)[i := nc\<lparr>c_timeout := 10\<rparr>])" for i
    using assms(1) by (auto simp: list_all_iff dest!: set_update_subset_insert [THEN subsetD])
  with assms(1) show ?thesis
    by (simp add: acceptClient_def split: option.splits)
qed

lemma acceptClient_core [simp]: "core (acceptClient nc s) = core s"
  by (simp add: core_def acceptClient_def split: option.splits)

lemma handleWiFiClients_quiet:
  assumes "length (clients s) = MAX_CLIENTS" "list_all (\<lambda>c. \<not> has_request c) (clients s)"
    "\<not> has_request nc"
  shows "core (handleWiFiClients nc now s) = core s"
proof -
  have "core (foldl (serviceSlot now) (acceptClient nc s) [0..<MAX_CLIENTS]) =
      core (acceptClient nc s)"
    using assms by (intro fold_service_quiet) (simp_all add: acceptClient_quiet)
  then show ?thesis by (simp add: handleWiFiClients_def)
qed

lemma quiet_pass:
  assumes "wf_state s" "quiet_run (inp # inps) s" "bufferIndex s = 0"
  shows "loop_pass s inp =
    checkTimeout (p_now inp) (handleWiFiClients (p_accept inp) (p_now inp)
          (s\<lparr>clients := net_update (p_net inp) (clients s)\<rparr>))"
    and "core (handleWiFiClients (p_accept inp) (p_now inp)
          (s\<lparr>clients := net_update (p_net inp) (clients s)\<rparr>)) = core s"
proof -
  let ?u = "handleWiFiClients (p_accept inp) (p_now inp)
      (s\<lparr>clients := net_update (p_net inp) (clients s)\<rparr>)"
  have "core ?u = core (s\<lparr>clients := net_update (p_net inp) (clients s)\<rparr>)"
    using assms by (intro handleWiFiClients_quiet) (simp_all add: wf_state_def)
  then show u: "core ?u = core s" by (simp add: core_def)
  then have "bufferIndex ?u = 0" using assms(3) by (simp add: core_def)
  then have "\<not> frameComplete (p_now inp) ?u" by (simp add: frameComplete_def)
  then show "loop_pass s inp = checkTimeout (p_now inp) ?u"
    using assms(2) by (simp add: loop_pass_def handleModbusRTU_def)
qed

lemma quiet_pass_idle:
  assumes "wf_state s" "quiet_run (inp # inps) s" "bufferIndex s = 0" "\<not> waitingForTcpResponse s"
  shows "bufferIndex (loop_pass s inp) = 0 \<and> \<not> waitingForTcpResponse (loop_pass s inp) \<and>
         timeouts (loop_pass s inp) = timeouts s"
  using quiet_pass [OF assms(1-3)] assms(3,4)
  by (simp add: checkTimeout_def core_def)

lemma quiet_pass_armed:
  assumes "wf_state s" "quiet_run (inp # inps) s" "bufferIndex s = 0" "waitingForTcpResponse s"
    "frameInProgress s"
  shows "p_now inp - frameStartTime s > MAX_FRAME_TIME \<Longrightarrow>
           bufferIndex (loop_pass s inp) = 0 \<and> \<not> waitingForTcpResponse (loop_pass s inp) \<and>
           timeouts (loop_pass s inp) = timeouts s + 1"
    and "\<not> p_now inp - frameStartTime s > MAX_FRAME_TIME \<Longrightarrow>
           bufferIndex (loop_pass s inp) = 0 \<and> waitingForTcpResponse (loop_pass s inp) \<and>
           frameInProgress (loop_pass s inp) \<and>
           frameStartTime (loop_pass s inp) = frameStartTime s \<and>
           timeouts (loop_pass s inp) = timeouts s"
  using quiet_pass [OF assms(1-3)] assms(3-5)
  by (simp_all add: checkTimeout_def core_def)

lemma quiet_run_idle:
  "wf_state s \<Longrightarrow> quiet_run inps s \<Longrightarrow> bufferIndex s = 0 \<Longrightarrow> \<not> waitingForTcpResponse s \<Longrightarrow>
   \<not> waitingForTcpResponse (run inps s) \<and> timeouts (run inps s) = timeouts s"
proof (induction inps arbitrary: s)
  case Nil
  then show ?case by simp
next
  case (Cons inp inps)
  have step: "bufferIndex (loop_pass s inp) = 0 \<and> \<not> waitingForTcpResponse (loop_pass s inp) \<and>
         timeouts (loop_pass s inp) = timeouts s"
    using Cons.prems by (intro quiet_pass_idle)
  have "\<not> waitingForTcpResponse (run inps (loop_pass s inp)) \<and>
      timeouts (run inps (loop_pass s inp)) = timeouts (loop_pass s inp)"
    using Cons.prems step by (intro Cons.IH) (simp_all add: loop_pass_wf)
  with step show ?case by simp
qed

lemma quiet_run_armed:
  "wf_state s \<Longrightarrow> quiet_run inps s \<Longrightarrow> bufferIndex s = 0 \<Longrightarrow> waitingForTcpResponse s \<Longrightarrow>
   frameInProgress s \<Longrightarrow> \<exists>inp \<in> set inps. p_now inp - frameStartTime s > MAX_FRAME_TIME \<Longrightarrow>
   \<not> waitingForTcpResponse (run inps s) \<and> timeouts (run inps s) = timeouts s + 1"
proof (induction inps arbitrary: s)
  case Nil
  then show ?case by simp
next
  case (Cons inp inps)
  show ?case
  proof (cases "p_now inp - frameStartTime s > MAX_FRAME_TIME")
    case True
    have step: "bufferIndex (loop_pass s inp) = 0 \<and> \<not> waitingForTcpResponse (loop_pass s inp) \<and>
           timeouts (loop_pass s inp) = timeouts s + 1"
      using Cons.prems(1-5) True by (intro quiet_pass_armed(1))
    have "\<not> waitingForTcpResponse (run inps (loop_pass s inp)) \<and>
        timeouts (run inps (loop_pass s inp)) = timeouts (loop_pass s inp)"
      using Cons.prems step by (intro quiet_run_idle) (simp_all add: loop_pass_wf)
    with step show ?thesis by simp
  next
    case False
    have step: "bufferIndex (loop_pass s inp) = 0 \<and> waitingForTcpResponse (loop_pass s inp) \<and>
           frameInProgress (loop_pass s inp) \<and>
           frameStartTime (loop_pass s inp) = frameStartTime s \<and>
           timeouts (loop_pass s inp) = timeouts s"
      using Cons.prems(1-5) False by (intro quiet_pass_armed(2))
    have later: "\<exists>q \<in> set inps. p_now q - frameStartTime (loop_pass s inp) > MAX_FRAME_TIME"
    proof -
      from step have "frameStartTime (loop_pass s inp) = frameStartTime s" by simp
      then show ?thesis using Cons.prems(6) False by auto
    qed
    have "\<not> waitingForTcpResponse (run inps (loop_pass s inp)) \<and>
        timeouts (run inps (loop_pass s inp)) = timeouts (loop_pass s inp) + 1"
      using Cons.prems(1,2) step later by (intro Cons.IH) (simp_all add: loop_pass_wf)
    with step show ?thesis by simp
  qed
qed

lemma quiet_run_still_armed:
  "wf_state s \<Longrightarrow> quiet_run inps s \<Longrightarrow> bufferIndex s = 0 \<Longrightarrow> waitingForTcpResponse s \<Longrightarrow>
   frameInProgress s \<Longrightarrow> \<forall>inp \<in> set inps. \<not> p_now inp - frameStartTime s > MAX_FRAME_TIME \<Longrightarrow>
   waitingForTcpResponse (run inps s) \<and> timeouts (run inps s) = timeouts s"
proof (induction inps arbitrary: s)
  case Nil
  then show ?case by simp
next
  case (Cons inp inps)
  have ng: "\<not> p_now inp - frameStartTime s > MAX_FRAME_TIME"
    using Cons.prems(6) by simp
  have step: "bufferIndex (loop_pass s inp) = 0 \<and> waitingForTcpResponse (loop_pass s inp) \<and>
         frameInProgress (loop_pass s inp) \<and>
         frameStartTime (loop_pass s inp) = frameStartTime s \<and>
         timeouts (loop_pass s inp) = timeouts s"
    using Cons.prems(1-5) ng by (intro quiet_pass_armed(2))
  have "waitingForTcpResponse (run inps (loop_pass s inp)) \<and>
      timeouts (run inps (loop_pass s inp)) = timeouts (loop_pass s inp)"
  proof (rule Cons.IH)
    show "wf_state (loop_pass s inp)"
      using Cons.prems(1) by (rule loop_pass_wf)
    show "quiet_run inps (loop_pass s inp)"
      using Cons.prems(2) by simp
    show "bufferIndex (loop_pass s inp) = 0" "waitingForTcpResponse (loop_pass s inp)"
      "frameInProgress (loop_pass s inp)"
      using step by simp_all
    show "\<forall>q \<in> set inps. \<not> p_now q - frameStartTime (loop_pass s inp) > MAX_FRAME_TIME"
      using Cons.prems(6) step by simp
  qed
  with step show ?case by simp
qed

lemma armed_state_eq:
  "armed_state = init_state\<lparr>clients := [peer 1 [], empty_client, empty_client, empty_client],
     log_trace := [EvTcpRequest 1 [0x01, 0x04, 0x00, 0x00, 0x00, 0x01, 0x31, 0xCA] 8,
                   EvTransmitted, EvWaiting],
     serial_out := [0x01, 0x04, 0x00, 0x00, 0x00, 0x01, 0x31, 0xCA],
     frameInProgress := True, frameStartTime := 0, bufferIndex := 0,
     waitingForTcpResponse := True, lastTcpRequestTime := 0\<rparr>"
  by (simp add: armed_state_def request_state_def handleWiFiClients_def slots_upt
      acceptClient_def serviceSlot_def forwardRequest_def Let_def addToLog_def
      empty_client_def peer_def init_state_def BUFFER_SIZE_def)

lemma idle_pass_armed:
  "loop_pass armed_state (idle_pass t) =
     (if t > 500 then (addToLog EvTimeout armed_state)
        \<lparr>frameInProgress := False, bufferIndex := 0, waitingForTcpResponse := False\<rparr>
      else armed_state)"
  by (simp add: armed_state_eq loop_pass_def idle_pass_def net_update_def
      handleWiFiClients_def slots_upt acceptClient_def serviceSlot_def Let_def
      empty_client_def peer_def init_state_def handleModbusRTU_def frameComplete_def
      checkTimeout_def MAX_FRAME_TIME_def addToLog_def)

section \<open>Closed forms for the serial loop and for quiet runs\<close>

lemma feedByte_assembler:
  "bufferIndex (feedByte s bt) =
     (if bufferIndex s < BUFFER_SIZE then bufferIndex s + 1 else bufferIndex s)"
  "lastByteTime (feedByte s bt) =
     (if bufferIndex s < BUFFER_SIZE then snd bt else lastByteTime s)"
  "frameInProgress (feedByte s bt) = (frameInProgress s \<or> bufferIndex s < BUFFER_SIZE)"
  "frameStartTime (feedByte s bt) =
     (if frameInProgress s \<or> \<not> bufferIndex s < BUFFER_SIZE then frameStartTime s else snd bt)"
  by (simp_all add: feedByte_def Let_def)

lemma drainSerial_bufferIndex:
  "bufferIndex s \<le> BUFFER_SIZE \<Longrightarrow>
   bufferIndex (drainSerial rx s) = min BUFFER_SIZE (bufferIndex s + length rx)"
  by (induction rx arbitrary: s) (auto simp: feedByte_assembler)

lemma drainSerial_lastByteTime:
  "lastByteTime (drainSerial rx s) =
     (if take (BUFFER_SIZE - bufferIndex s) rx = [] then lastByteTime s
      else snd (last (take (BUFFER_SIZE - bufferIndex s) rx)))"
proof (induction rx arbitrary: s)
  case Nil
  then show ?case by simp
next
  case (Cons bt rx)
  show ?case
  proof (cases "bufferIndex s < BUFFER_SIZE")
    case True
    then have t: "take (BUFFER_SIZE - bufferIndex s) (bt # rx) =
        bt # take (BUFFER_SIZE - Suc (bufferIndex s)) rx"
      by (simp add: take_Cons')
    show ?thesis
      using True by (simp add: Cons.IH feedByte_assembler t)
  next
    case False
    then show ?thesis
      by (simp add: Cons.IH feedByte_assembler)
  qed
qed

lemma drainSerial_frameInProgress:
  "frameInProgress (drainSerial rx s) =
     (frameInProgress s \<or> (rx \<noteq> [] \<and> bufferIndex s < BUFFER_SIZE))"
  by (induction rx arbitrary: s) (auto simp: feedByte_assembler)

lemma drainSerial_frameStartTime:
  "frameStartTime (drainSerial rx s) =
     (if frameInProgress s \<or> rx = [] \<or> \<not> bufferIndex s < BUFFER_SIZE then frameStartTime s
      else snd (hd rx))"
  by (induction rx arbitrary: s) (auto simp: feedByte_assembler)

lemma drainSerial_isHeartbeat [simp]:
  "isHeartbeat now (drainSerial rx s) = isHeartbeat now s"
  by (simp add: isHeartbeat_def)


lemma handleModbusRTU_from_empty:
  assumes "length (buffer s) = BUFFER_SIZE" "bufferIndex s = 0"
  shows "emitted (handleModbusRTU rx now s) = emitted s @
     (if frameComplete now (drainSerial rx s)
      then [(if isHeartbeat now s then UNSOLICITED else RESPONSE, take BUFFER_SIZE (map fst rx))]
      else [])"
proof -
  have "pending (drainSerial rx s) = take BUFFER_SIZE (pending s @ map fst rx)"
    using assms by (intro pending_drainSerial) simp_all
  moreover have "pending s = []" using assms(2) by (simp add: pending_def)
  ultimately have "pending (drainSerial rx s) = take BUFFER_SIZE (map fst rx)" by simp
  then have "take (bufferIndex (drainSerial rx s)) (buffer (drainSerial rx s)) =
      take BUFFER_SIZE (map fst rx)"
    by (simp add: pending_def)
  then show ?thesis
    by (simp add: handleModbusRTU_emitted)
qed

lemma frameComplete_drained:
  assumes "bufferIndex s \<le> BUFFER_SIZE"
  shows "frameComplete now (drainSerial rx s) =
    ((frameInProgress s \<or> (rx \<noteq> [] \<and> bufferIndex s < BUFFER_SIZE)) \<and>
     min BUFFER_SIZE (bufferIndex s + length rx) > 0 \<and>
     (now - lastByteTime (drainSerial rx s) \<ge> MODBUS_TIMEOUT_MS \<or>
      now - frameStartTime (drainSerial rx s) \<ge> MAX_FRAME_TIME))"
  using assms
  by (simp add: frameComplete_def drainSerial_frameInProgress drainSerial_bufferIndex)





lemma armed_state_facts:
  "wf_state armed_state" "waitingForTcpResponse armed_state" "frameInProgress armed_state"
  "bufferIndex armed_state = 0" "frameStartTime armed_state = 0"
  "lastTcpRequestTime armed_state = 0" "emitted armed_state = []"
  "length (buffer armed_state) = BUFFER_SIZE" "lastByteTime armed_state = 0"
  by (simp_all add: armed_state_eq wf_state_def init_state_def MAX_CLIENTS_def emitted_def)

lemma request_state_facts:
  "wf_state request_state" "live (clients request_state ! 0)"
  "c_rx (clients request_state ! 0) \<noteq> []" "emitted request_state = []"
  by (simp_all add: request_state_def wf_state_def init_state_def MAX_CLIENTS_def peer_def
      live_def emitted_def)

section \<open>Frame assembly\<close>

lemma scenario_drained:
  "frameInProgress (drainSerial scenario_bytes init_state)"
  "bufferIndex (drainSerial scenario_bytes init_state) = 8"
  "lastByteTime (drainSerial scenario_bytes init_state) = 107"
  "frameStartTime (drainSerial scenario_bytes init_state) = 100"
  "\<not> waitingForTcpResponse (drainSerial scenario_bytes init_state)"
  by (simp_all add: scenario_bytes_def init_state_def feedByte_def Let_def BUFFER_SIZE_def)

lemma scenario_pending:
  "take 8 (buffer (drainSerial scenario_bytes init_state)) =
   [0x01, 0x04, 0x00, 0x00, 0x00, 0x01, 0x31, 0xCA]"
proof -
  have "length (buffer init_state) = BUFFER_SIZE" "bufferIndex init_state \<le> BUFFER_SIZE"
    by (simp_all add: init_state_def)
  then have "pending (drainSerial scenario_bytes init_state) =
      take BUFFER_SIZE (pending init_state @ map fst scenario_bytes)"
    by (rule pending_drainSerial)
  moreover have "pending init_state = []"
    by (simp add: pending_def init_state_def)
  moreover have "map fst scenario_bytes = [0x01, 0x04, 0x00, 0x00, 0x00, 0x01, 0x31, 0xCA]"
    by (simp add: scenario_bytes_def)
  ultimately have "pending (drainSerial scenario_bytes init_state) =
      [0x01, 0x04, 0x00, 0x00, 0x00, 0x01, 0x31, 0xCA]"
    by (simp add: BUFFER_SIZE_def)
  then show ?thesis
    by (simp add: pending_def scenario_drained)
qed

text \<open>C1, as the spec states it, fails in the "only if". With a full buffer, a byte received
  at time 7 is dropped without moving the last-byte time, and the pass at time 8 emits the
  frame 1 ms after a byte was received and 7 ms after the frame started. After a request was
  forwarded at time 0 the frame start is the time of the request: the first byte of the reply,
  received at 499, is emitted alone by the pass at time 500, 1 ms after it was received.\<close>

theorem frame_cut_short_counterexample:
  "frameInProgress full_buffer_state \<and> frameStartTime full_buffer_state = 1 \<and>
   emitted (handleModbusRTU [(0x55, 7)] 8 full_buffer_state) =
     [(UNSOLICITED, replicate 256 0)] \<and>
   \<not> (2::u32) \<le> 8 - 7 \<and> \<not> (500::u32) \<le> 8 - 1 \<and>
   frameInProgress armed_state \<and> bufferIndex armed_state = 0 \<and>
   emitted (handleModbusRTU [(0x01, 499)] 500 armed_state) = [(RESPONSE, [0x01])] \<and>
   \<not> (2::u32) \<le> 500 - 499 \<and> \<not> (500::u32) \<le> 500 - 499"
proof -
  have full: "emitted (handleModbusRTU [(0x55, 7)] 8 full_buffer_state) =
      [(UNSOLICITED, replicate 256 0)]"
    unfolding handleModbusRTU_emitted
    by (simp add: full_buffer_state_def feedByte_def Let_def BUFFER_SIZE_def
        frameComplete_def isHeartbeat_def MODBUS_TIMEOUT_MS_def)
      (simp add: init_state_def BUFFER_SIZE_def)
  have c: "frameComplete 500 (drainSerial [(0x01, 499)] armed_state)"
    by (simp add: frameComplete_drained drainSerial_frameStartTime armed_state_facts
        BUFFER_SIZE_def MAX_FRAME_TIME_def del: drainSerial_Cons)
  have armed: "emitted (handleModbusRTU [(0x01, 499)] 500 armed_state) = [(RESPONSE, [0x01])]"
    using handleModbusRTU_from_empty [OF armed_state_facts(8,4), of "[(0x01, 499)]" 500] c
    by (simp add: armed_state_facts isHeartbeat_def BUFFER_SIZE_def)
  have w: "\<not> (2::u32) \<le> 8 - 7" "\<not> (500::u32) \<le> 8 - 1" "\<not> (2::u32) \<le> 500 - 499"
    "\<not> (500::u32) \<le> 500 - 499"
    by (simp_all add: word_le_nat_alt)
  have "frameInProgress full_buffer_state" "frameStartTime full_buffer_state = 1"
    by (simp_all add: full_buffer_state_def)
  with full armed w armed_state_facts(3,4) show ?thesis by blast
qed

text \<open>C1, amended. A pass of \<^verbatim>\<open>handleModbusRTU\<close> emits a frame if and only if, once the
  bytes of the pass are processed, a frame is in progress, at least one byte is buffered, and
  the time since \<^verbatim>\<open>lastByteTime\<close> is at least 2 ms or the time since
  \<^verbatim>\<open>frameStartTime\<close> is at least 500 ms. \<^verbatim>\<open>lastByteTime\<close> is the time of the last byte
  stored in the buffer: bytes dropped because the buffer is full do not move it.
  \<^verbatim>\<open>frameStartTime\<close> is the time of the first byte stored when no frame was in progress, and
  the time of the request when \<^verbatim>\<open>handleWiFiClients\<close> forwarded one. An emission emits
  exactly the buffered bytes, clears the in-progress flag and sets the buffer index to zero.
  Passes that feed no serial byte, starting with an empty buffer, never emit a frame, whatever
  the TCP clients do.\<close>

theorem frame_emitted_iff_complete:
  "(let s1 = drainSerial rx s; s' = handleModbusRTU rx now s;
        complete = (frameInProgress s1 \<and> bufferIndex s1 > 0 \<and>
                    (now - lastByteTime s1 \<ge> 2 \<or> now - frameStartTime s1 \<ge> 500))
    in emitted s' = emitted s @
         (if complete
          then [(if isHeartbeat now s1 then UNSOLICITED else RESPONSE,
                 take (bufferIndex s1) (buffer s1))]
          else []) \<and>
       (complete \<longrightarrow> \<not> frameInProgress s' \<and> bufferIndex s' = 0) \<and>
       lastByteTime s1 =
         (if take (BUFFER_SIZE - bufferIndex s) rx = [] then lastByteTime s
          else snd (last (take (BUFFER_SIZE - bufferIndex s) rx))) \<and>
       frameStartTime s1 =
         (if frameInProgress s \<or> rx = [] \<or> \<not> bufferIndex s < BUFFER_SIZE
          then frameStartTime s else snd (hd rx))) \<and>
   (wf_state s0 \<and> i < MAX_CLIENTS \<and> live (clients s0 ! i) \<and> c_rx (clients s0 ! i) \<noteq> [] \<longrightarrow>
      frameInProgress (handleWiFiClients newClient T s0) \<and>
      frameStartTime (handleWiFiClients newClient T s0) = T \<and>
      bufferIndex (handleWiFiClients newClient T s0) = 0) \<and>
   (bufferIndex s = 0 \<and> (\<forall>inp \<in> set inps. p_serial inp = []) \<longrightarrow>
      emitted (run inps s) = emitted s)"
proof -
  have c: "frameComplete now (drainSerial rx s) =
      (frameInProgress (drainSerial rx s) \<and> bufferIndex (drainSerial rx s) > 0 \<and>
       (now - lastByteTime (drainSerial rx s) \<ge> 2 \<or> now - frameStartTime (drainSerial rx s) \<ge> 500))"
    by (simp add: frameComplete_def MODBUS_TIMEOUT_MS_def MAX_FRAME_TIME_def)
  have assembler: "let s1 = drainSerial rx s; s' = handleModbusRTU rx now s;
        complete = (frameInProgress s1 \<and> bufferIndex s1 > 0 \<and>
                    (now - lastByteTime s1 \<ge> 2 \<or> now - frameStartTime s1 \<ge> 500))
    in emitted s' = emitted s @
         (if complete
          then [(if isHeartbeat now s1 then UNSOLICITED else RESPONSE,
                 take (bufferIndex s1) (buffer s1))]
          else []) \<and>
       (complete \<longrightarrow> \<not> frameInProgress s' \<and> bufferIndex s' = 0) \<and>
       lastByteTime s1 =
         (if take (BUFFER_SIZE - bufferIndex s) rx = [] then lastByteTime s
          else snd (last (take (BUFFER_SIZE - bufferIndex s) rx))) \<and>
       frameStartTime s1 =
         (if frameInProgress s \<or> rx = [] \<or> \<not> bufferIndex s < BUFFER_SIZE
          then frameStartTime s else snd (hd rx))"
    unfolding Let_def c [symmetric]
    using handleModbusRTU_emitted [of rx now s] handleModbusRTU_reset [of now rx s]
      drainSerial_lastByteTime [of rx s] drainSerial_frameStartTime [of rx s]
    by (simp del: drainSerial_isHeartbeat)
  have forward: "frameInProgress (handleWiFiClients newClient T s0) \<and>
      frameStartTime (handleWiFiClients newClient T s0) = T \<and>
      bufferIndex (handleWiFiClients newClient T s0) = 0"
    if "i < MAX_CLIENTS" "live (clients s0 ! i)" "c_rx (clients s0 ! i) \<noteq> []"
  proof -
    have "clients (acceptClient newClient s0) ! i = clients s0 ! i"
      using that(2) by (rule acceptClient_live_slot)
    then have "has_request (clients (acceptClient newClient s0) ! i)"
      using that(2,3) by (simp add: has_request_def)
    with that(1) have "armed_at T (handleWiFiClients newClient T s0)"
      by (rule handleWiFiClients_armed_at)
    then show ?thesis by (simp add: armed_at_def)
  qed
  have silent: "bufferIndex s = 0 \<and> (\<forall>inp \<in> set inps. p_serial inp = []) \<longrightarrow>
      emitted (run inps s) = emitted s"
    using run_silent [of s inps] by blast
  from assembler forward silent show ?thesis by blast
qed

theorem frame_emitted_iff_complete_witness:
  "emitted (handleModbusRTU scenario_bytes 110 init_state) =
     [(UNSOLICITED, [0x01, 0x04, 0x00, 0x00, 0x00, 0x01, 0x31, 0xCA])] \<and>
   \<not> frameInProgress (handleModbusRTU scenario_bytes 110 init_state) \<and>
   bufferIndex (handleModbusRTU scenario_bytes 110 init_state) = 0 \<and>
   lastByteTime (drainSerial scenario_bytes init_state) = 107 \<and>
   frameStartTime (drainSerial scenario_bytes init_state) = 100 \<and>
   emitted (handleModbusRTU scenario_bytes 108 init_state) = [] \<and>
   frameStartTime (handleWiFiClients empty_client 0 request_state) = 0 \<and>
   emitted (run [idle_pass 1, idle_pass 600] init_state) = []"
proof -
  have e: "emitted init_state = []" "bufferIndex init_state = 0"
    "\<not> waitingForTcpResponse init_state"
    by (simp_all add: emitted_def init_state_def)
  have q: "\<forall>inp \<in> set [idle_pass 1, idle_pass 600]. p_serial inp = []"
    by (simp add: idle_pass_def)
  have m: "(0::nat) < MAX_CLIENTS" by (simp add: MAX_CLIENTS_def)
  have a: "emitted (handleModbusRTU scenario_bytes 110 init_state) =
     [(UNSOLICITED, [0x01, 0x04, 0x00, 0x00, 0x00, 0x01, 0x31, 0xCA])] \<and>
   \<not> frameInProgress (handleModbusRTU scenario_bytes 110 init_state) \<and>
   bufferIndex (handleModbusRTU scenario_bytes 110 init_state) = 0"
    using frame_emitted_iff_complete [THEN conjunct1, of scenario_bytes init_state 110]
    by (simp add: Let_def scenario_drained scenario_pending isHeartbeat_def e word_le_nat_alt)
  have b: "emitted (handleModbusRTU scenario_bytes 108 init_state) = []"
    using frame_emitted_iff_complete [THEN conjunct1, of scenario_bytes init_state 108]
    by (simp add: Let_def scenario_drained scenario_pending isHeartbeat_def e word_le_nat_alt)
  have c: "frameStartTime (handleWiFiClients empty_client 0 request_state) = 0"
    using frame_emitted_iff_complete [THEN conjunct2, THEN conjunct1, of request_state 0 empty_client 0]
      request_state_facts m
    by simp
  have d: "emitted (run [idle_pass 1, idle_pass 600] init_state) = []"
    using frame_emitted_iff_complete [THEN conjunct2, THEN conjunct2, of init_state
        "[idle_pass 1, idle_pass 600]"] q e
    by simp
  from a b c d scenario_drained(3,4) show ?thesis by blast
qed

text \<open>C9. Starting from a buffer index of at most \<^verbatim>\<open>BUFFER_SIZE\<close> = 256 (as at boot),
  the index never exceeds 256, neither while a sequence of serial bytes is fed nor after any
  number of passes of the loop, and the buffer keeps its 256 cells, so that every store
  (made only when the index is below 256) is in bounds. The buffered bytes are the first 256
  of the bytes buffered before followed by the bytes fed: the excess is dropped.\<close>

theorem buffer_index_bounded:
  assumes "wf_state s" "bufferIndex s \<le> BUFFER_SIZE"
  shows "BUFFER_SIZE = 256 \<and>
         bufferIndex (drainSerial rx s) \<le> BUFFER_SIZE \<and>
         length (buffer (drainSerial rx s)) = BUFFER_SIZE \<and>
         take (bufferIndex (drainSerial rx s)) (buffer (drainSerial rx s)) =
           take BUFFER_SIZE (take (bufferIndex s) (buffer s) @ map fst rx) \<and>
         bufferIndex (run inps s) \<le> BUFFER_SIZE \<and>
         length (buffer (run inps s)) = BUFFER_SIZE"
proof -
  have "wf_state (run inps s)" using assms(1) by (rule run_wf)
  then have "length (buffer (run inps s)) = BUFFER_SIZE" by (simp add: wf_state_def)
  moreover have "length (buffer s) = BUFFER_SIZE" using assms(1) by (simp add: wf_state_def)
  moreover have "BUFFER_SIZE = 256" by (simp add: BUFFER_SIZE_def)
  ultimately show ?thesis
    using assms(2) drainSerial_bufferIndex_le [of s rx] run_bufferIndex_le [of s inps]
      pending_drainSerial [of s rx]
    by (simp add: pending_def)
qed

theorem buffer_index_bounded_witness:
  "wf_state init_state \<and> bufferIndex init_state \<le> BUFFER_SIZE \<and>
   bufferIndex (drainSerial (replicate 300 (7, 1)) init_state) \<le> 256 \<and>
   take (bufferIndex (drainSerial (replicate 300 (7, 1)) init_state))
        (buffer (drainSerial (replicate 300 (7, 1)) init_state)) = replicate 256 7"
proof -
  have i: "bufferIndex init_state = 0" by (simp add: init_state_def)
  show ?thesis
    using buffer_index_bounded [OF wf_init_state, of "replicate 300 (7, 1)" "[]"] wf_init_state
    by (simp add: i BUFFER_SIZE_def)
qed

text \<open>C5, as the spec states it, fails: a byte that arrives at time 7 while the buffer is full
  leaves the last-byte time at 5, the only log entry is the line written for every byte, and
  the pass at time 8 emits the 256 buffered bytes as an ordinary frame, because the last-byte
  time is stale.\<close>

theorem overflow_keeps_last_byte_time_counterexample:
  "bufferIndex full_buffer_state = BUFFER_SIZE \<and>
   lastByteTime full_buffer_state = 5 \<and>
   lastByteTime (drainSerial [(0x55, 7)] full_buffer_state) = 5 \<and>
   log_trace (drainSerial [(0x55, 7)] full_buffer_state) = [EvReceivingByte] \<and>
   emitted (handleModbusRTU [(0x55, 7)] 8 full_buffer_state) =
     [(UNSOLICITED, replicate 256 0)]"
proof -
  have "emitted (handleModbusRTU [(0x55, 7)] 8 full_buffer_state) =
      [(UNSOLICITED, replicate 256 0)]"
    unfolding handleModbusRTU_emitted
    by (simp add: full_buffer_state_def feedByte_def Let_def BUFFER_SIZE_def
        frameComplete_def isHeartbeat_def MODBUS_TIMEOUT_MS_def)
      (simp add: init_state_def BUFFER_SIZE_def)
  then show ?thesis
    by (simp add: full_buffer_state_def init_state_def feedByte_def Let_def BUFFER_SIZE_def
        addToLog_def)
qed

text \<open>C5, amended. Bytes fed while the buffer is at capacity are dropped and change nothing
  of the state (buffer, index, last-byte time, frame start, in-progress flag and counter stay
  as they were) but the log, which gets the line written for every byte and no other; the
  frame the pass emits, if any, is the buffered \<^verbatim>\<open>BUFFER_SIZE\<close> bytes, with nothing that
  marks it as truncated. The functions are total: nothing raises.\<close>

theorem overflow_bytes_dropped_silently:
  assumes "bufferIndex s = BUFFER_SIZE"
  shows "drainSerial rx s = s\<lparr>log_trace := log_trace s @ replicate (length rx) EvReceivingByte\<rparr> \<and>
         emitted (handleModbusRTU rx now s) = emitted s @
           (if frameComplete now s
            then [(if isHeartbeat now s then UNSOLICITED else RESPONSE,
                   take BUFFER_SIZE (buffer s))]
            else [])"
proof -
  have d: "drainSerial rx s = s\<lparr>log_trace := log_trace s @ replicate (length rx) EvReceivingByte\<rparr>"
    using assms by (intro drainSerial_full) simp
  have "frameComplete now (drainSerial rx s) = frameComplete now s"
    "isHeartbeat now (drainSerial rx s) = isHeartbeat now s"
    unfolding d by (simp_all add: frameComplete_def isHeartbeat_def)
  moreover have "take (bufferIndex (drainSerial rx s)) (buffer (drainSerial rx s)) =
      take BUFFER_SIZE (buffer s)"
    unfolding d using assms by simp
  ultimately show ?thesis
    using d handleModbusRTU_emitted [of rx now s] by simp
qed

theorem overflow_bytes_dropped_silently_witness:
  "bufferIndex full_buffer_state = BUFFER_SIZE \<and>
   drainSerial [(0x55, 7), (0x66, 7)] full_buffer_state =
     full_buffer_state\<lparr>log_trace := [EvReceivingByte, EvReceivingByte]\<rparr> \<and>
   emitted (handleModbusRTU [(0x55, 7), (0x66, 7)] 8 full_buffer_state) =
     [(UNSOLICITED, replicate 256 0)]"
proof -
  have b: "bufferIndex full_buffer_state = BUFFER_SIZE"
    by (simp add: full_buffer_state_def BUFFER_SIZE_def)
  show ?thesis
    using overflow_bytes_dropped_silently [OF b, of "[(0x55, 7), (0x66, 7)]" 8] b
    by (simp add: full_buffer_state_def frameComplete_def isHeartbeat_def
        BUFFER_SIZE_def MODBUS_TIMEOUT_MS_def)
      (simp add: init_state_def BUFFER_SIZE_def)
qed

lemma interrupted_state_facts:
  "wf_state interrupted_state"
  "live (clients interrupted_state ! 0)"
  "c_rx (clients interrupted_state ! 0) \<noteq> []"
  "frameInProgress interrupted_state"
  "bufferIndex interrupted_state = 1"
  "take (bufferIndex interrupted_state) (buffer interrupted_state) = [1]"
  "emitted interrupted_state = []"
  "tcp_out interrupted_state = []"
  by (simp_all add: interrupted_state_def late_state_def init_state_def wf_state_def
      MAX_CLIENTS_def BUFFER_SIZE_def peer_def live_def emitted_def)

text \<open>C10. When a live connection has inbound bytes, in particular while a frame is in
  progress with buffered serial bytes, the pass of \<^verbatim>\<open>handleWiFiClients\<close> that forwards the
  request sets the buffer index to zero and the frame start time to the current time, emits
  no frame and writes to no client; whatever serial bytes are fed afterwards, the bytes of
  the frame being assembled are those bytes only, so the bytes buffered before are never
  emitted.\<close>

theorem request_discards_partial_frame:
  assumes "wf_state s" "i < MAX_CLIENTS" "live (clients s ! i)" "c_rx (clients s ! i) \<noteq> []"
  shows "(let s' = handleWiFiClients newClient now s in
      bufferIndex s' = 0 \<and> frameStartTime s' = now \<and> frameInProgress s' \<and>
      emitted s' = emitted s \<and> tcp_out s' = tcp_out s \<and>
      (\<forall>rx. take (bufferIndex (drainSerial rx s')) (buffer (drainSerial rx s')) =
            take BUFFER_SIZE (map fst rx)))"
proof -
  let ?s' = "handleWiFiClients newClient now s"
  have "clients (acceptClient newClient s) ! i = clients s ! i"
    using assms(3) by (rule acceptClient_live_slot)
  then have "has_request (clients (acceptClient newClient s) ! i)"
    using assms(3,4) by (simp add: has_request_def)
  with assms(2) have a: "armed_at now ?s'"
    by (rule handleWiFiClients_armed_at)
  have "length (buffer ?s') = BUFFER_SIZE"
    using assms(1) by (simp add: wf_state_def)
  moreover have "bufferIndex ?s' \<le> BUFFER_SIZE"
    using a by (simp add: armed_at_def)
  ultimately have "pending (drainSerial rx ?s') = take BUFFER_SIZE (pending ?s' @ map fst rx)" for rx
    by (rule pending_drainSerial)
  moreover have "pending ?s' = []"
    using a by (simp add: pending_def armed_at_def)
  ultimately have "pending (drainSerial rx ?s') = take BUFFER_SIZE (map fst rx)" for rx
    by simp
  then have "take (bufferIndex (drainSerial rx ?s')) (buffer (drainSerial rx ?s')) =
      take BUFFER_SIZE (map fst rx)" for rx
    by (simp add: pending_def)
  with a show ?thesis
    by (simp add: Let_def armed_at_def)
qed

theorem request_discards_partial_frame_witness:
  "wf_state interrupted_state \<and> (0::nat) < MAX_CLIENTS \<and>
   live (clients interrupted_state ! 0) \<and> c_rx (clients interrupted_state ! 0) \<noteq> [] \<and>
   frameInProgress interrupted_state \<and>
   take (bufferIndex interrupted_state) (buffer interrupted_state) = [1] \<and>
   bufferIndex (handleWiFiClients empty_client 40 interrupted_state) = 0 \<and>
   frameStartTime (handleWiFiClients empty_client 40 interrupted_state) = 40 \<and>
   tcp_out (handleWiFiClients empty_client 40 interrupted_state) = [] \<and>
   emitted (handleWiFiClients empty_client 40 interrupted_state) = [] \<and>
   take (bufferIndex (drainSerial [(9, 50)] (handleWiFiClients empty_client 40 interrupted_state)))
        (buffer (drainSerial [(9, 50)] (handleWiFiClients empty_client 40 interrupted_state))) = [9]"
proof -
  have m: "(0::nat) < MAX_CLIENTS" by (simp add: MAX_CLIENTS_def)
  have "take BUFFER_SIZE (map fst [(9::u8, 50::u32)]) = [9]"
    by (simp add: BUFFER_SIZE_def)
  then show ?thesis
    using request_discards_partial_frame [OF interrupted_state_facts(1) m interrupted_state_facts(2,3), of empty_client 40]
      m interrupted_state_facts
    by (simp add: Let_def del: drainSerial_Cons)
qed

section \<open>Classification of completed frames\<close>




text \<open>C4, as the spec states it, fails: a frame that completes more than 5000 ms after
  the request was forwarded is emitted as UNSOLICITED, but the pending marker stays set,
  also at the end of the pass of \<^verbatim>\<open>handleModbusRTU\<close> that emitted it.\<close>

theorem late_frame_keeps_marker_counterexample:
  "waitingForTcpResponse late_state \<and> bufferIndex late_state > 0 \<and>
   (5001::u32) - lastTcpRequestTime late_state > 5000 \<and>
   emitted (processRTUResponse 5001 late_state) = [(UNSOLICITED, [1])] \<and>
   waitingForTcpResponse (processRTUResponse 5001 late_state) \<and>
   waitingForTcpResponse (handleModbusRTU [] 5001 late_state)"
  by (simp add: late_state_def init_state_def handleModbusRTU_def drainSerial_def
      frameComplete_def checkTimeout_def processRTUResponse_def isHeartbeat_def Let_def
      emitted_def addToLog_def live_slots_def BUFFER_SIZE_def MODBUS_TIMEOUT_MS_def
      MAX_FRAME_TIME_def)

text \<open>C4, amended. A frame that completes while a request is pending and more than
  5000 ms after it was forwarded is emitted as UNSOLICITED; the pending marker and the
  forward time are left as they were, and the assembler is reset.\<close>

theorem late_frame_unsolicited:
  assumes "bufferIndex s > 0" "waitingForTcpResponse s" "now - lastTcpRequestTime s > 5000"
  shows "emitted (processRTUResponse now s) =
           emitted s @ [(UNSOLICITED, take (bufferIndex s) (buffer s))] \<and>
         waitingForTcpResponse (processRTUResponse now s) \<and>
         lastTcpRequestTime (processRTUResponse now s) = lastTcpRequestTime s \<and>
         \<not> frameInProgress (processRTUResponse now s) \<and>
         bufferIndex (processRTUResponse now s) = 0"
  using assms processRTUResponse_unsolicited [of s now]
  by (simp add: processRTUResponse_def isHeartbeat_def Let_def addToLog_def)

theorem late_frame_unsolicited_witness:
  "emitted (processRTUResponse 5001 late_state) = [(UNSOLICITED, [1])] \<and>
   waitingForTcpResponse (processRTUResponse 5001 late_state)"
  using late_frame_unsolicited [of late_state 5001]
  by (simp add: late_state_def init_state_def emitted_def BUFFER_SIZE_def)

section \<open>The missed response\<close>

text \<open>C3, as the spec states it, fails: the code does not wait for the response window of
  5000 ms. The request was forwarded at time 0 and nothing arrives. The pass at time 501, when
  the window has not elapsed, already clears the pending marker and logs the timeout; the pass
  at time 5001, when the window has elapsed, changes nothing and logs nothing.\<close>

theorem timeout_before_response_window_counterexample:
  "waitingForTcpResponse armed_state \<and> frameInProgress armed_state \<and>
   bufferIndex armed_state = 0 \<and> frameStartTime armed_state = 0 \<and>
   lastTcpRequestTime armed_state = 0 \<and> timeouts armed_state = 0 \<and>
   quiet_run [idle_pass 501, idle_pass 5001] armed_state \<and>
   \<not> (501::u32) - 0 > 5000 \<and>
   \<not> waitingForTcpResponse (run [idle_pass 501] armed_state) \<and>
   timeouts (run [idle_pass 501] armed_state) = 1 \<and>
   run [idle_pass 501, idle_pass 5001] armed_state = run [idle_pass 501] armed_state"
proof -
  have f: "waitingForTcpResponse armed_state" "frameInProgress armed_state"
    "bufferIndex armed_state = 0" "frameStartTime armed_state = 0"
    "lastTcpRequestTime armed_state = 0" "timeouts armed_state = 0"
    by (simp_all add: armed_state_eq timeouts_def init_state_def)
  have after: "loop_pass (loop_pass armed_state (idle_pass 501)) (idle_pass 5001) =
      loop_pass armed_state (idle_pass 501)"
    by (simp add: idle_pass_armed)
      (simp add: idle_pass_def empty_client_def net_update_def
        armed_state_eq peer_def init_state_def loop_pass_def handleWiFiClients_def slots_upt
        acceptClient_def serviceSlot_def Let_def handleModbusRTU_def frameComplete_def
        checkTimeout_def addToLog_def)
  have q: "quiet_run [idle_pass 501, idle_pass 5001] armed_state"
    by (simp add: idle_pass_armed)
      (simp add: idle_pass_def has_request_def live_def empty_client_def net_update_def
        armed_state_eq peer_def init_state_def loop_pass_def handleWiFiClients_def slots_upt
        acceptClient_def serviceSlot_def Let_def handleModbusRTU_def frameComplete_def
        checkTimeout_def addToLog_def)
  show ?thesis
    using f q after by (simp add: idle_pass_armed)
qed

text \<open>C3, amended. If a request was forwarded at time \<open>T\<close> and afterwards no serial byte
  arrives and no client sends a request, then the first pass that sees more than
  \<^verbatim>\<open>MAX_FRAME_TIME\<close> = 500 ms elapsed since \<open>T\<close> clears the pending marker and logs the
  timeout, and it is logged exactly once in the whole run; as long as no pass sees more than
  500 ms elapsed, the marker stays set and nothing is logged.\<close>

theorem missed_response_after_max_frame_time:
  assumes "wf_state s" "waitingForTcpResponse s" "frameInProgress s" "bufferIndex s = 0"
    "frameStartTime s = T" "quiet_run inps s"
  shows "MAX_FRAME_TIME = 500 \<and>
    ((\<exists>inp \<in> set inps. p_now inp - T > MAX_FRAME_TIME) \<longrightarrow>
       \<not> waitingForTcpResponse (run inps s) \<and> timeouts (run inps s) = timeouts s + 1) \<and>
    ((\<forall>inp \<in> set inps. \<not> p_now inp - T > MAX_FRAME_TIME) \<longrightarrow>
       waitingForTcpResponse (run inps s) \<and> timeouts (run inps s) = timeouts s)"
  using assms quiet_run_armed [of s inps] quiet_run_still_armed [of s inps]
  by (simp add: MAX_FRAME_TIME_def)

theorem missed_response_after_max_frame_time_witness:
  "wf_state armed_state \<and> waitingForTcpResponse armed_state \<and> frameInProgress armed_state \<and>
   bufferIndex armed_state = 0 \<and> frameStartTime armed_state = 0 \<and>
   quiet_run [idle_pass 100, idle_pass 600, idle_pass 5001] armed_state \<and>
   (\<exists>inp \<in> set [idle_pass 100, idle_pass 600, idle_pass 5001]. p_now inp - 0 > MAX_FRAME_TIME) \<and>
   \<not> waitingForTcpResponse (run [idle_pass 100, idle_pass 600, idle_pass 5001] armed_state) \<and>
   timeouts (run [idle_pass 100, idle_pass 600, idle_pass 5001] armed_state) = 1 \<and>
   quiet_run [idle_pass 100, idle_pass 400] armed_state \<and>
   \<not> p_now (idle_pass 100) - 0 > MAX_FRAME_TIME \<and>
   \<not> p_now (idle_pass 400) - 0 > MAX_FRAME_TIME \<and>
   waitingForTcpResponse (run [idle_pass 100, idle_pass 400] armed_state) \<and>
   timeouts (run [idle_pass 100, idle_pass 400] armed_state) = 0"
proof -
  have w: "wf_state armed_state"
    by (simp add: armed_state_eq wf_state_def init_state_def MAX_CLIENTS_def)
  have f: "waitingForTcpResponse armed_state" "frameInProgress armed_state"
    "bufferIndex armed_state = 0" "frameStartTime armed_state = 0"
    "timeouts armed_state = 0"
    by (simp_all add: armed_state_eq timeouts_def init_state_def)
  have q: "quiet_run [idle_pass 100, idle_pass 600, idle_pass 5001] armed_state"
    by (simp add: idle_pass_armed)
      (simp add: idle_pass_def has_request_def live_def empty_client_def net_update_def
        armed_state_eq peer_def init_state_def loop_pass_def handleWiFiClients_def slots_upt
        acceptClient_def serviceSlot_def Let_def handleModbusRTU_def frameComplete_def
        checkTimeout_def addToLog_def)
  have q': "quiet_run [idle_pass 100, idle_pass 400] armed_state"
    by (simp add: idle_pass_armed)
      (simp add: idle_pass_def has_request_def live_def empty_client_def net_update_def
        armed_state_eq peer_def init_state_def)
  have e: "\<exists>inp \<in> set [idle_pass 100, idle_pass 600, idle_pass 5001].
      p_now inp - 0 > MAX_FRAME_TIME"
    by (simp add: idle_pass_def MAX_FRAME_TIME_def)
  have e': "\<forall>inp \<in> set [idle_pass 100, idle_pass 400]. \<not> p_now inp - 0 > MAX_FRAME_TIME"
    by (simp add: idle_pass_def MAX_FRAME_TIME_def)
  have r: "\<not> waitingForTcpResponse (run [idle_pass 100, idle_pass 600, idle_pass 5001] armed_state) \<and>
      timeouts (run [idle_pass 100, idle_pass 600, idle_pass 5001] armed_state) = 1"
    using missed_response_after_max_frame_time [OF w f(1-4) q, THEN conjunct2, THEN conjunct1, THEN mp, OF e] f(5)
    by simp
  have r': "waitingForTcpResponse (run [idle_pass 100, idle_pass 400] armed_state) \<and>
      timeouts (run [idle_pass 100, idle_pass 400] armed_state) = 0"
    using missed_response_after_max_frame_time [OF w f(1-4) q', THEN conjunct2, THEN conjunct2, THEN mp, OF e'] f(5)
    by simp
  have e'': "\<not> p_now (idle_pass 100) - 0 > MAX_FRAME_TIME"
    "\<not> p_now (idle_pass 400) - 0 > MAX_FRAME_TIME"
    using e' by simp_all
  show ?thesis
    using w f(1-4) q e r q' e'' r' by blast
qed

section \<open>The client registry\<close>

lemma full_registry_clients:
  "clients full_registry = map (\<lambda>n. (peer n [])\<lparr>c_timeout := 10\<rparr>) [1, 2, 3, 4]"
  by (simp add: full_registry_def acceptClient_def init_state_def peer_def live_def
      empty_client_def slots_upt addToLog_def)

text \<open>C7. When all \<^verbatim>\<open>MAX_CLIENTS\<close> = 4 slots hold live connections, accepting one more
  connection changes nothing: no slot is modified and the connection is not stored.\<close>

theorem full_registry_rejects:
  assumes "length (clients s) = MAX_CLIENTS" "\<forall>c \<in> set (clients s). live c"
  shows "acceptClient newClient s = s"
proof -
  have "find (\<lambda>i. \<not> live (clients s ! i)) [0..<MAX_CLIENTS] = None"
    using assms by (simp add: find_None_iff)
  then show ?thesis by (simp add: acceptClient_def)
qed

theorem full_registry_rejects_witness:
  "length (clients full_registry) = MAX_CLIENTS \<and> list_all live (clients full_registry) \<and>
   clients (acceptClient (peer 5 []) full_registry) =
     map (\<lambda>n. (peer n [])\<lparr>c_timeout := 10\<rparr>) [1, 2, 3, 4]"
  using full_registry_rejects [of full_registry "peer 5 []"]
  by (simp add: full_registry_clients MAX_CLIENTS_def live_def peer_def)

lemma broadcast_state_facts:
  "wf_state broadcast_state"
  "bufferIndex broadcast_state > 0"
  "take (bufferIndex broadcast_state) (buffer broadcast_state) = [1]"
  "isHeartbeat 10 broadcast_state = False"
  "emitted broadcast_state = []"
  "written_to i broadcast_state = []"
  "clients broadcast_state =
     [peer 7 [], (peer 8 [])\<lparr>c_connected := False\<rparr>, empty_client, peer 9 []]"
  by (simp_all add: broadcast_state_def late_state_def init_state_def wf_state_def
      MAX_CLIENTS_def BUFFER_SIZE_def isHeartbeat_def emitted_def written_to_def)

text \<open>C6. A completed frame, whichever class it gets, is handed to \<^verbatim>\<open>write\<close> once, whole
  and in order, on every slot below \<^verbatim>\<open>MAX_CLIENTS\<close> whose connection is live, and on no
  other slot. A slot whose connection is not live gets nothing, and after the next pass of
  \<^verbatim>\<open>handleWiFiClients\<close> it holds no valid client any more, unless that pass gave the
  slot to the connection it accepted.\<close>

theorem frame_broadcast_to_live_slots:
  assumes "wf_state s" "bufferIndex s > 0"
  shows "(let s' = processRTUResponse now s; frame = take (bufferIndex s) (buffer s) in
      emitted s' = emitted s @ [(if isHeartbeat now s then UNSOLICITED else RESPONSE, frame)] \<and>
      clients s' = clients s \<and>
      (\<forall>i. written_to i s' = written_to i s @
              (if i < MAX_CLIENTS \<and> live (clients s ! i) then [frame] else [])) \<and>
      (\<forall>i<MAX_CLIENTS. \<not> live (clients s ! i) \<longrightarrow>
         (let c = clients (handleWiFiClients newClient later s') ! i in
          c_valid c \<longrightarrow> c_valid newClient \<and> c_peer c = c_peer newClient)))"
proof -
  let ?s' = "processRTUResponse now s"
  have len: "length (clients ?s') = MAX_CLIENTS"
    using assms(1) by (simp add: wf_state_def)
  have prune: "c_valid newClient \<and>
      c_peer (clients (handleWiFiClients newClient later ?s') ! i) = c_peer newClient"
    if i: "i < MAX_CLIENTS" and dead: "\<not> live (clients s ! i)"
      and v: "c_valid (clients (handleWiFiClients newClient later ?s') ! i)" for i
  proof -
    let ?a = "clients (acceptClient newClient ?s') ! i"
    have h: "clients (handleWiFiClients newClient later ?s') ! i = serviced ?a"
      using len i by (rule handleWiFiClients_slot)
    with v have sv: "c_valid (serviced ?a)" by simp
    then have "live ?a" using serviced_not_live by blast
    moreover have "?a = clients ?s' ! i \<or> (c_valid newClient \<and> ?a = newClient\<lparr>c_timeout := 10\<rparr>)"
      using len i by (intro acceptClient_slot) simp
    ultimately have "c_valid newClient \<and> ?a = newClient\<lparr>c_timeout := 10\<rparr>"
      using dead by auto
    with serviced_valid [OF sv] h show ?thesis by simp
  qed
  show ?thesis
    using assms(2) prune
    by (simp add: Let_def processRTUResponse_emitted processRTUResponse_written_to)
qed

theorem frame_broadcast_to_live_slots_witness:
  "wf_state broadcast_state \<and> bufferIndex broadcast_state > 0 \<and>
   live (clients broadcast_state ! 0) \<and> \<not> live (clients broadcast_state ! 1) \<and>
   \<not> live (clients broadcast_state ! 2) \<and> live (clients broadcast_state ! 3) \<and>
   emitted (processRTUResponse 10 broadcast_state) = [(RESPONSE, [1])] \<and>
   written_to 0 (processRTUResponse 10 broadcast_state) = [ [1] ] \<and>
   written_to 1 (processRTUResponse 10 broadcast_state) = [] \<and>
   written_to 2 (processRTUResponse 10 broadcast_state) = [] \<and>
   written_to 3 (processRTUResponse 10 broadcast_state) = [ [1] ] \<and>
   written_to 4 (processRTUResponse 10 broadcast_state) = [] \<and>
   \<not> c_valid (clients (handleWiFiClients empty_client 20
                 (processRTUResponse 10 broadcast_state)) ! 1)"
proof -
  note inst = frame_broadcast_to_live_slots [OF broadcast_state_facts(1,2), of 10 empty_client 20,
      unfolded Let_def broadcast_state_facts]
  have l: "live (peer 7 [])" "\<not> live ((peer 8 [])\<lparr>c_connected := False\<rparr>)"
    "\<not> live empty_client" "live (peer 9 [])" "\<not> c_valid empty_client"
    by (simp_all add: live_def peer_def empty_client_def)
  have w: "written_to i (processRTUResponse 10 broadcast_state) =
      (if i < MAX_CLIENTS \<and>
          live ([peer 7 [], (peer 8 [])\<lparr>c_connected := False\<rparr>, empty_client, peer 9 []] ! i)
       then [ [1] ] else [])" for i
    using inst by simp
  have p: "\<not> c_valid (clients (handleWiFiClients empty_client 20
                 (processRTUResponse 10 broadcast_state)) ! 1)"
    using inst [THEN conjunct2, THEN conjunct2, THEN conjunct2, rule_format, of 1] l
    by (auto simp add: MAX_CLIENTS_def)
  from inst have e: "emitted (processRTUResponse 10 broadcast_state) = [(RESPONSE, [1])]"
    by simp
  show ?thesis
    using e p l broadcast_state_facts(1,2)
    by (simp add: w broadcast_state_facts(7) MAX_CLIENTS_def)
qed

section \<open>Forwarding requests\<close>

lemma wf_oversize_state: "wf_state oversize_state"
  by (simp add: wf_state_def oversize_state_def init_state_def MAX_CLIENTS_def)

lemma oversize_accept:
  "clients (acceptClient empty_client oversize_state) =
     [peer 7 (replicate 257 0x11), empty_client, empty_client, empty_client]"
  "serial_out oversize_state = []"
  by (simp_all add: acceptClient_def empty_client_def oversize_state_def init_state_def)

text \<open>C8, as the spec states it, fails: of 257 bytes available on a connection only the first
  256 are read and forwarded in the pass; one byte stays queued in the connection.\<close>

theorem oversize_request_split_counterexample:
  "live (clients oversize_state ! 0) \<and>
   length (c_rx (clients oversize_state ! 0)) = 257 \<and>
   serial_out (handleWiFiClients empty_client 7 oversize_state) = replicate 256 0x11 \<and>
   c_rx (clients (handleWiFiClients empty_client 7 oversize_state) ! 0) = [0x11]"
  by (simp add: oversize_state_def init_state_def handleWiFiClients_def slots_upt
      acceptClient_def serviceSlot_def forwardRequest_def Let_def addToLog_def
      empty_client_def peer_def live_def BUFFER_SIZE_def)

text \<open>C8, amended. In one pass of \<^verbatim>\<open>handleWiFiClients\<close>, for every slot that holds a
  live connection with inbound bytes after the accept step, the first
  min(available, \<^verbatim>\<open>BUFFER_SIZE\<close> = 256) bytes are read as one unit and written verbatim
  to the serial port, in slot order; the bytes beyond 256 stay queued in the connection; and
  the pending marker is set with the current time.\<close>

theorem request_forwarded_up_to_buffer_size:
  assumes "wf_state s"
  shows "(let s0 = acceptClient newClient s; s' = handleWiFiClients newClient now s in
      serial_out s' = serial_out s @ concat (map forwarded (clients s0)) \<and>
      (\<forall>i<MAX_CLIENTS. live (clients s0 ! i) \<and> c_rx (clients s0 ! i) \<noteq> [] \<longrightarrow>
         forwarded (clients s0 ! i) = take BUFFER_SIZE (c_rx (clients s0 ! i)) \<and>
         c_rx (clients s' ! i) = drop BUFFER_SIZE (c_rx (clients s0 ! i)) \<and>
         waitingForTcpResponse s' \<and> lastTcpRequestTime s' = now))"
proof -
  have len: "length (clients s) = MAX_CLIENTS"
    using assms by (simp add: wf_state_def)
  have "forwarded c = take BUFFER_SIZE (c_rx c) \<and> c_rx (serviced c) = drop BUFFER_SIZE (c_rx c)"
    if "live c" "c_rx c \<noteq> []" for c
    using that by (simp add: forwarded_def serviced_def)
  moreover have "armed_at now (handleWiFiClients newClient now s)"
    if "i < MAX_CLIENTS" "live (clients (acceptClient newClient s) ! i)"
      "c_rx (clients (acceptClient newClient s) ! i) \<noteq> []" for i
    using that by (intro handleWiFiClients_armed_at [of i]) (simp_all add: has_request_def)
  ultimately show ?thesis
    using len
    by (simp add: Let_def handleWiFiClients_serial handleWiFiClients_slot armed_at_def)
qed

theorem request_forwarded_up_to_buffer_size_witness:
  "wf_state oversize_state \<and>
   serial_out (handleWiFiClients empty_client 7 oversize_state) = replicate 256 0x11 \<and>
   c_rx (clients (handleWiFiClients empty_client 7 oversize_state) ! 0) = [0x11] \<and>
   waitingForTcpResponse (handleWiFiClients empty_client 7 oversize_state) \<and>
   lastTcpRequestTime (handleWiFiClients empty_client 7 oversize_state) = 7"
proof -
  let ?s' = "handleWiFiClients empty_client 7 oversize_state"
  note inst = request_forwarded_up_to_buffer_size [OF wf_oversize_state, of empty_client 7]
  have f: "forwarded (peer 7 (replicate 257 0x11)) = replicate 256 0x11"
    "forwarded empty_client = []"
    by (simp_all add: forwarded_def peer_def live_def empty_client_def BUFFER_SIZE_def)
  from inst have "serial_out ?s' = replicate 256 0x11"
    by (simp add: Let_def oversize_accept f)
  moreover from inst have slots: "\<forall>i<MAX_CLIENTS.
      live ([peer 7 (replicate 257 0x11), empty_client, empty_client, empty_client] ! i) \<and>
      c_rx ([peer 7 (replicate 257 0x11), empty_client, empty_client, empty_client] ! i) \<noteq> [] \<longrightarrow>
      c_rx (clients ?s' ! i) =
        drop BUFFER_SIZE
          (c_rx ([peer 7 (replicate 257 0x11), empty_client, empty_client, empty_client] ! i)) \<and>
      waitingForTcpResponse ?s' \<and> lastTcpRequestTime ?s' = 7"
    by (simp add: Let_def oversize_accept)
  have "c_rx (clients ?s' ! 0) = [0x11] \<and> waitingForTcpResponse ?s' \<and>
      lastTcpRequestTime ?s' = 7"
    using slots [rule_format, of 0]
    by (simp add: MAX_CLIENTS_def peer_def live_def BUFFER_SIZE_def)
  ultimately show ?thesis
    using wf_oversize_state by simp
qed

end
